theory Spec2Isabelle
  imports Complex_Main
begin

section \<open>Strings and numbers of the host language\<close>

text \<open>
  A JavaScript string is a sequence of UTF-16 code units. The embedding works on
  \<^typ>\<open>string\<close>, that is on code units below 256; every character the program
  inspects (brackets, parentheses, braces, slash, colon, backtick, digits, white space)
  lies in that range.

  The Numbers of this program are results of \<open>parseInt\<close> and of integer arithmetic
  on them: either \<open>NaN\<close> or an integer. They are modelled as mathematical integers,
  which is what the double arithmetic computes while magnitudes stay below \<open>2^53\<close>.
  The one quotient the program forms is kept as a rational.
\<close>

datatype number = NaN | Num int

fun isNaN :: "number \<Rightarrow> bool" where
  "isNaN NaN = True"
| "isNaN (Num _) = False"

text \<open>Comparisons: every comparison with \<open>NaN\<close> is false.\<close>

fun num_lt :: "number \<Rightarrow> number \<Rightarrow> bool" where
  "num_lt (Num a) (Num b) = (a < b)"
| "num_lt _ _ = False"

fun num_eq :: "number \<Rightarrow> number \<Rightarrow> bool" where
  "num_eq (Num a) (Num b) = (a = b)"
| "num_eq _ _ = False"

definition num_gt :: "number \<Rightarrow> number \<Rightarrow> bool" where
  "num_gt a b = num_lt b a"

fun num_add :: "number \<Rightarrow> number \<Rightarrow> number" where
  "num_add (Num a) (Num b) = Num (a + b)"
| "num_add _ _ = NaN"

fun num_sub :: "number \<Rightarrow> number \<Rightarrow> number" where
  "num_sub (Num a) (Num b) = Num (a - b)"
| "num_sub _ _ = NaN"

fun num_mul :: "number \<Rightarrow> number \<Rightarrow> number" where
  "num_mul (Num a) (Num b) = Num (a * b)"
| "num_mul _ _ = NaN"

text \<open>
  \<open>a / b\<close> for a divisor that is a non-zero constant of the program (\<open>None\<close> is
  \<open>NaN\<close>), and \<open>Math.ceil\<close> of such a quotient.
\<close>

fun num_div :: "number \<Rightarrow> int \<Rightarrow> rat option" where
  "num_div (Num a) b = Some (of_int a / of_int b)"
| "num_div NaN b = None"

fun Math_ceil :: "rat option \<Rightarrow> number" where
  "Math_ceil (Some x) = Num \<lceil>x\<rceil>"
| "Math_ceil None = NaN"

subsection \<open>Number to string\<close>

definition digit_char :: "nat \<Rightarrow> char" where
  "digit_char d = char_of (48 + d)"

fun nat_digits :: "nat \<Rightarrow> string" where
  "nat_digits n = (if n < 10 then [digit_char n] else nat_digits (n div 10) @ [digit_char (n mod 10)])"

declare nat_digits.simps [simp del]

fun Number_toString :: "number \<Rightarrow> string" where
  "Number_toString NaN = ''NaN''"
| "Number_toString (Num i) = (if i < 0 then CHR ''-'' # nat_digits (nat (- i)) else nat_digits (nat i))"

subsection \<open>String helpers\<close>

text \<open>
  White space as \<open>String.prototype.trim\<close> and \<open>parseInt\<close> see it, among the code
  units below 256: tab, line feed, vertical tab, form feed, carriage return, space and
  the no-break space.
\<close>

definition is_white_space :: "char \<Rightarrow> bool" where
  "is_white_space c = (of_char c \<in> {9, 10, 11, 12, 13, 32, 160 :: nat})"

definition trimStart :: "string \<Rightarrow> string" where
  "trimStart s = dropWhile is_white_space s"

definition trim :: "string \<Rightarrow> string" where
  "trim s = rev (dropWhile is_white_space (rev (dropWhile is_white_space s)))"

text \<open>Truthiness of an optional string: \<open>undefined\<close> and the empty string are falsy.\<close>

fun truthy :: "string option \<Rightarrow> bool" where
  "truthy None = False"
| "truthy (Some s) = (s \<noteq> [])"

text \<open>String concatenation with a possibly undefined operand prints \<open>undefined\<close>.\<close>

fun to_display :: "string option \<Rightarrow> string" where
  "to_display None = ''undefined''"
| "to_display (Some s) = s"

subsection \<open>parseInt\<close>

definition digit_value :: "char \<Rightarrow> nat option" where
  "digit_value c =
     (let n = (of_char c :: nat) in
      if 48 \<le> n \<and> n \<le> 57 then Some (n - 48)
      else if 97 \<le> n \<and> n \<le> 122 then Some (n - 87)
      else if 65 \<le> n \<and> n \<le> 90 then Some (n - 55)
      else None)"

definition is_radix_digit :: "nat \<Rightarrow> char \<Rightarrow> bool" where
  "is_radix_digit R c = (case digit_value c of None \<Rightarrow> False | Some d \<Rightarrow> d < R)"

definition digits_value :: "nat \<Rightarrow> string \<Rightarrow> nat" where
  "digits_value R Z = foldl (\<lambda>acc c. acc * R + (case digit_value c of None \<Rightarrow> 0 | Some d \<Rightarrow> d)) 0 Z"

text \<open>
  \<open>parseInt(string)\<close> with no radix: skip leading white space, read a sign, read a
  \<open>0x\<close>/\<open>0X\<close> prefix (radix 16, otherwise 10), take the longest run of digits; no
  digit gives \<open>NaN\<close>.
\<close>

definition parseInt :: "string \<Rightarrow> number" where
  "parseInt inputString =
     (let S = trimStart inputString;
          sign = (if S \<noteq> [] \<and> hd S = CHR ''-'' then - 1 else 1 :: int);
          S1 = (if S \<noteq> [] \<and> (hd S = CHR ''+'' \<or> hd S = CHR ''-'') then tl S else S);
          hex = (take 2 S1 = ''0x'' \<or> take 2 S1 = ''0X'');
          R = (if hex then 16 else 10);
          S2 = (if hex then drop 2 S1 else S1);
          Z = takeWhile (is_radix_digit R) S2
      in if Z = [] then NaN else Num (sign * int (digits_value R Z)))"

subsection \<open>encodeURIComponent\<close>

definition is_unreserved :: "char \<Rightarrow> bool" where
  "is_unreserved c =
     (let n = (of_char c :: nat) in
      (65 \<le> n \<and> n \<le> 90) \<or> (97 \<le> n \<and> n \<le> 122) \<or> (48 \<le> n \<and> n \<le> 57) \<or>
      c \<in> set ''-_.!~*()'' \<or> n = 39)"

definition hex_char :: "nat \<Rightarrow> char" where
  "hex_char d = (if d < 10 then char_of (48 + d) else char_of (55 + d))"

definition percent_byte :: "nat \<Rightarrow> string" where
  "percent_byte b = [CHR ''%'', hex_char (b div 16), hex_char (b mod 16)]"

definition encode_unit :: "char \<Rightarrow> string" where
  "encode_unit c =
     (let n = (of_char c :: nat) in
      if is_unreserved c then [c]
      else if n < 128 then percent_byte n
      else percent_byte (192 + n div 64) @ percent_byte (128 + n mod 64))"

definition encodeURIComponent :: "string \<Rightarrow> string" where
  "encodeURIComponent s = concat (map encode_unit s)"

section \<open>The search client's constants\<close>

definition PAGE_SIZE :: int where
  "PAGE_SIZE = 10"

definition MAX_PAGE :: int where
  "MAX_PAGE = 10"

definition LAST_PAGE :: int where
  "LAST_PAGE = MAX_PAGE"

section \<open>Pages and the response envelope\<close>

record page_object =
  title :: string
  description :: string
  url :: string
  exampleUrl :: "string option"
  playgroundUrl :: "string option"

record result_inner =
  totalResults :: number
  currentPage :: number
  pageCount :: number
  components :: "page_object list"
  pages :: "page_object list"
  isTruncated :: "bool option"

record result_envelope =
  result :: result_inner
  initial :: bool
  nextUrl :: "string option"
  prevUrl :: "string option"

text \<open>
  \<open>createResult\<close> builds the envelope and serialises it with \<open>JSON.stringify\<close>. The
  embedding returns the object that is serialised: an optional field that is never
  assigned is \<open>None\<close> and does not appear in the JSON text.
\<close>

definition searchBaseUrl :: "string \<Rightarrow> string \<Rightarrow> string" where
  "searchBaseUrl query locale =
     ''/search/do?q='' @ encodeURIComponent query @ ''&locale='' @ encodeURIComponent locale @ ''&page=''"

definition createResult ::
  "number \<Rightarrow> number \<Rightarrow> number \<Rightarrow> page_object list \<Rightarrow> page_object list \<Rightarrow> string \<Rightarrow> string
    \<Rightarrow> result_envelope" where
  "createResult totalResults' page lastPage components' pages' query locale =
     (let r0 = \<lparr> result = \<lparr> totalResults = totalResults', currentPage = page, pageCount = lastPage,
                              components = components', pages = pages', isTruncated = None \<rparr>,
                  initial = False, nextUrl = None, prevUrl = None \<rparr>;
          r1 = (if num_eq page (Num LAST_PAGE) \<and> num_gt lastPage (Num LAST_PAGE)
                then r0 \<lparr> result := (result r0) \<lparr> isTruncated := Some True \<rparr> \<rparr> else r0);
          base = searchBaseUrl query locale;
          r2 = (if num_lt page lastPage \<and> num_lt page (Num LAST_PAGE)
                then r1 \<lparr> nextUrl := Some (base @ Number_toString (num_add page (Num 1))) \<rparr> else r1);
          r3 = (if num_gt page (Num 1)
                then r2 \<lparr> prevUrl := Some (base @ Number_toString (num_sub page (Num 1))) \<rparr> else r2)
      in r3)"

section \<open>Regular expressions\<close>

text \<open>
  The two regular expressions of the program use literals, the classes \<open>c\<close> and
  \<open>[^c]\<close>, the quantifiers \<open>+\<close>, \<open>*\<close> and \<open>*?\<close> on a class, \<open>?\<close> on a group,
  alternation, the anchors \<open>^\<close> and \<open>$\<close> and one capture group. A matcher state is
  the position in the subject, the text that remains, and what group 1 captured.
  \<open>run r st\<close> lists, in the order in which a backtracking matcher tries them, the
  states in which a match of \<open>r\<close> started at \<open>st\<close> can end; the head of the list is the
  match the engine reports.
\<close>

datatype cls = Is char | Isnt char

fun in_cls :: "cls \<Rightarrow> char \<Rightarrow> bool" where
  "in_cls (Is c) x = (x = c)"
| "in_cls (Isnt c) x = (x \<noteq> c)"

datatype regex =
    Lit string
  | One cls
  | Plus cls
  | Star cls
  | StarLazy cls
  | Bol
  | Eol
  | Seq regex regex
  | Alt regex regex
  | Opt regex
  | Group regex

datatype mstate = MState (pos: nat) (rest: string) (cap: "string option")

definition advance :: "nat \<Rightarrow> mstate \<Rightarrow> mstate" where
  "advance k st = MState (pos st + k) (drop k (rest st)) (cap st)"

definition run_length :: "cls \<Rightarrow> string \<Rightarrow> nat" where
  "run_length C s = length (takeWhile (in_cls C) s)"

fun run :: "regex \<Rightarrow> mstate \<Rightarrow> mstate list" where
  "run (Lit w) st = (if take (length w) (rest st) = w then [advance (length w) st] else [])"
| "run (One C) st =
     (case rest st of [] \<Rightarrow> [] | x # _ \<Rightarrow> if in_cls C x then [advance 1 st] else [])"
| "run (Plus C) st = map (\<lambda>k. advance k st) (rev [1 ..< Suc (run_length C (rest st))])"
| "run (Star C) st = map (\<lambda>k. advance k st) (rev [0 ..< Suc (run_length C (rest st))])"
| "run (StarLazy C) st = map (\<lambda>k. advance k st) [0 ..< Suc (run_length C (rest st))]"
| "run Bol st = (if pos st = 0 then [st] else [])"
| "run Eol st = (if rest st = [] then [st] else [])"
| "run (Seq r1 r2) st = concat (map (run r2) (run r1 st))"
| "run (Alt r1 r2) st = run r1 st @ run r2 st"
| "run (Opt r) st = run r st @ [st]"
| "run (Group r) st =
     map (\<lambda>m. MState (pos m) (rest m) (Some (take (pos m - pos st) (rest st)))) (run r st)"

fun cat :: "regex list \<Rightarrow> regex" where
  "cat [] = Lit []"
| "cat [r] = r"
| "cat (r # rs) = Seq r (cat rs)"

text \<open>
  \<open>exec\<close> of a regular expression without the \<open>g\<close> flag: the first match, tried at
  position 0, then 1, and so on. \<open>test\<close> says whether there is one.
\<close>

fun exec_from :: "regex \<Rightarrow> nat \<Rightarrow> string \<Rightarrow> mstate option" where
  "exec_from r p s =
     (case run r (MState p s None) of
        m # _ \<Rightarrow> Some m
      | [] \<Rightarrow> (case s of [] \<Rightarrow> None | _ # cs \<Rightarrow> exec_from r (Suc p) cs))"

declare exec_from.simps [simp del]

definition exec :: "regex \<Rightarrow> string \<Rightarrow> mstate option" where
  "exec r s = exec_from r 0 s"

definition test :: "regex \<Rightarrow> string \<Rightarrow> bool" where
  "test r s = (exec r s \<noteq> None)"

text \<open>
  \<open>String.prototype.replace\<close> with a global regular expression. A replacement
  template is text with references to group 1 (\<open>$1\<close>); a group that did not take part
  in the match expands to the empty string. After a match the scan goes on where the
  match ended; after an empty match it copies one code unit and goes on behind it.
\<close>

datatype template_item = Text string | GroupRef

fun expand :: "template_item list \<Rightarrow> mstate \<Rightarrow> string" where
  "expand [] m = []"
| "expand (Text w # t) m = w @ expand t m"
| "expand (GroupRef # t) m = (case cap m of None \<Rightarrow> [] | Some c \<Rightarrow> c) @ expand t m"

fun replace_from :: "regex \<Rightarrow> template_item list \<Rightarrow> nat \<Rightarrow> string \<Rightarrow> string" where
  "replace_from r t p s =
     (case run r (MState p s None) of
        m # _ \<Rightarrow>
          if length (rest m) < length s then expand t m @ replace_from r t (pos m) (rest m)
          else expand t m @ (case s of [] \<Rightarrow> [] | c # cs \<Rightarrow> c # replace_from r t (Suc p) cs)
      | [] \<Rightarrow> (case s of [] \<Rightarrow> [] | c # cs \<Rightarrow> c # replace_from r t (Suc p) cs))"

declare replace_from.simps [simp del]

definition replace_global :: "regex \<Rightarrow> template_item list \<Rightarrow> string \<Rightarrow> string" where
  "replace_global r t s = replace_from r t 0 s"

section \<open>Request handler: text cleanup\<close>

definition BACKTICK_PATTERN :: regex where
  "BACKTICK_PATTERN = Lit ''`''"

text \<open>The pattern \<^verbatim>\<open>\[([^\]]+)\]\([^\)]*?(?:\{\{[^}]+\}[^\)]*)?(?:\)|$)\<close>.\<close>

definition MARKDOWN_LINK_PATTERN :: regex where
  "MARKDOWN_LINK_PATTERN =
     cat [Lit ''['', Group (Plus (Isnt CHR '']'')), Lit '']'', Lit ''('',
          StarLazy (Isnt CHR '')''),
          Opt (cat [Lit ''{{'', Plus (Isnt CHR ''}''), Lit ''}'', Star (Isnt CHR '')'')]),
          Alt (Lit '')'') Eol]"

definition cleanupText :: "string \<Rightarrow> string" where
  "cleanupText text =
     (let text1 = replace_global BACKTICK_PATTERN [Text [CHR 0x27]] text;
          text2 = replace_global MARKDOWN_LINK_PATTERN [GroupRef] text1
      in text2)"

definition cleanupTexts :: "page_object \<Rightarrow> page_object" where
  "cleanupTexts page =
     (let page1 = page \<lparr> title := cleanupText (title page) \<rparr>;
          page2 = page1 \<lparr> description := cleanupText (description page1) \<rparr>
      in page2)"

section \<open>Request handler: pages from result items\<close>

text \<open>
  A raw result item of the search API: \<open>title\<close>, \<open>snippet\<close> and \<open>link\<close> are strings
  that may be missing; \<open>pagemap.metatags\<close>, when there, is an array of dictionaries from
  tag names to string values.
\<close>

record pagemap_object =
  metatags :: "(string \<times> string) list list option"

record raw_item =
  item_title :: "string option"
  snippet :: "string option"
  link :: "string option"
  pagemap :: "pagemap_object option"

definition DESCRIPTION_META_TAG :: string where
  "DESCRIPTION_META_TAG = ''twitter:description''"

definition MAX_HIGHLIGHT_COMPONENTS :: nat where
  "MAX_HIGHLIGHT_COMPONENTS = 3"

definition MAX_HIGHLIGHT_COMPONENT_INDEX :: nat where
  "MAX_HIGHLIGHT_COMPONENT_INDEX = 7"

text \<open>
  The pattern
  \<^verbatim>\<open>^(?:https?:\/\/[^/]+)?(?:\/[^/]+)?\/documentation\/components\/(amp-[^/]+)\<close>.
\<close>

definition COMPONENT_REFERENCE_DOC_PATTERN :: regex where
  "COMPONENT_REFERENCE_DOC_PATTERN =
     cat [Bol,
          Opt (cat [Lit ''http'', Opt (Lit ''s''), Lit ''://'', Plus (Isnt CHR ''/'')]),
          Opt (cat [Lit ''/'', Plus (Isnt CHR ''/'')]),
          Lit ''/documentation/components/'',
          Group (cat [Lit ''amp-'', Plus (Isnt CHR ''/'')])]"

definition DEFAULT_LOCALE :: string where
  "DEFAULT_LOCALE = ''en''"

definition getDefaultLocale :: string where
  "getDefaultLocale = ''en''"

definition RESPONSE_MAX_AGE_search :: int where
  "RESPONSE_MAX_AGE_search = 60 * 60"

text \<open>
  The meta tag value is returned when every link of the chain is truthy: the pagemap,
  its metatags, a first dictionary, and a non-empty value under the tag; otherwise
  \<open>null\<close>.
\<close>

definition getCseItemMetaTagValue :: "raw_item \<Rightarrow> string \<Rightarrow> string option" where
  "getCseItemMetaTagValue item metaTag =
     (case pagemap item of
        None \<Rightarrow> None
      | Some pm \<Rightarrow>
          (case metatags pm of
             None \<Rightarrow> None
           | Some tags \<Rightarrow>
               if length tags > 0 \<and> truthy (map_of (tags ! 0) metaTag)
               then map_of (tags ! 0) metaTag else None))"

fun or_empty :: "string option \<Rightarrow> string" where
  "or_empty None = []"
| "or_empty (Some s) = s"

definition createPageObject :: "raw_item \<Rightarrow> page_object" where
  "createPageObject item =
     \<lparr> title = or_empty (item_title item), description = or_empty (snippet item),
       url = or_empty (link item), exampleUrl = None, playgroundUrl = None \<rparr>"

definition addExampleAndPlaygroundLink :: "page_object \<Rightarrow> string \<Rightarrow> page_object" where
  "addExampleAndPlaygroundLink page locale =
     (case exec COMPONENT_REFERENCE_DOC_PATTERN (url page) of
        None \<Rightarrow> page
      | Some m \<Rightarrow>
          if truthy (cap m) then
            (let componentName = or_empty (cap m);
                 page1 = page \<lparr> exampleUrl :=
                           Some (''/'' @ locale @ ''/documentation/examples/?q='' @ componentName) \<rparr>;
                 page2 = page1 \<lparr> playgroundUrl :=
                           Some (''https://playground.amp.dev/#url='' @ encodeURIComponent (url page1)) \<rparr>
             in page2)
          else page)"

text \<open>\<open>lastIndexOf\<close> gives \<open>-1\<close> when the character does not occur.\<close>

definition lastIndexOf :: "char \<Rightarrow> string \<Rightarrow> int" where
  "lastIndexOf c s =
     (if c \<in> set s then int (length s) - 1 - int (length (takeWhile (\<lambda>x. x \<noteq> c) (rev s))) else - 1)"

definition enrichComponentPageObject :: "raw_item \<Rightarrow> page_object \<Rightarrow> string \<Rightarrow> page_object" where
  "enrichComponentPageObject item page locale =
     (let description' = getCseItemMetaTagValue item DESCRIPTION_META_TAG;
          page1 = (if truthy description' then page \<lparr> description := or_empty description' \<rparr> else page);
          page2 = (if title page1 \<noteq> [] then
                     (let prefixIndex = lastIndexOf CHR '':'' (title page1) in
                      if prefixIndex > 0 \<and> prefixIndex + 1 < int (length (title page1))
                      then page1 \<lparr> title := trim (drop (nat (prefixIndex + 1)) (title page1)) \<rparr>
                      else page1)
                   else page1)
      in addExampleAndPlaygroundLink page2 locale)"

section \<open>Search client\<close>

datatype js_error = Error string | TypeError string | FetchError string

fun String_of_error :: "js_error \<Rightarrow> string" where
  "String_of_error (Error m) = ''Error: '' @ m"
| "String_of_error (TypeError m) = ''TypeError: '' @ m"
| "String_of_error (FetchError m) = ''FetchError: '' @ m"

definition CSE_BASE_URL :: string where
  "CSE_BASE_URL = ''https://www.googleapis.com/customsearch/v1''"

definition CSE_ID :: string where
  "CSE_ID = ''a1a3679a4a68c41f5''"

record environment =
  GOOGLE_CUSTOM_SEARCH_API_KEY :: "string option"
  AMP_DEV_CREDENTIAL_GOOGLE_CSE_API_KEY :: "string option"

definition API_KEY :: "environment \<Rightarrow> string option" where
  "API_KEY env =
     (if truthy (GOOGLE_CUSTOM_SEARCH_API_KEY env) then GOOGLE_CUSTOM_SEARCH_API_KEY env
      else AMP_DEV_CREDENTIAL_GOOGLE_CSE_API_KEY env)"

text \<open>
  The outbound URL is kept as its base and the ordered list of its query parameters;
  \<open>searchParams.set\<close> overwrites the first entry of the name and drops the others, or
  appends.
\<close>

record request_url =
  base :: string
  searchParams :: "(string \<times> string) list"

fun params_set :: "string \<Rightarrow> string \<Rightarrow> (string \<times> string) list \<Rightarrow> (string \<times> string) list" where
  "params_set k v [] = [(k, v)]"
| "params_set k v ((k', v') # ps) =
     (if k' = k then (k, v) # filter (\<lambda>p. fst p \<noteq> k) ps else (k', v') # params_set k v ps)"

definition searchParams_set :: "string \<Rightarrow> string \<Rightarrow> request_url \<Rightarrow> request_url" where
  "searchParams_set k v u = u \<lparr> searchParams := params_set k v (searchParams u) \<rparr>"

record search_options =
  hiddenQuery :: "string option"
  noLanguageFilter :: "bool option"

text \<open>
  What \<open>fetch\<close> can do: reject (no response at all), or resolve with a status and a
  body. Reading the body with \<open>text()\<close> gives the text or fails; reading it with
  \<open>json()\<close> fails, or gives the value \<open>null\<close>, or gives a value.
\<close>

datatype 'j json_body = NotJson js_error | JsonNull | JsonValue 'j

datatype 'j fetch_outcome =
  Rejected js_error | Resolved (status: nat) (bodyText: "js_error + string") (bodyJson: "'j json_body")

definition ok :: "nat \<Rightarrow> bool" where
  "ok st = (200 \<le> st \<and> st < 300)"

text \<open>
  \<open>search\<close> returns its outcome (\<open>Inl\<close> for a thrown error) and the list of the URLs it
  fetched. Log output is not modelled.
\<close>

definition language_of :: "string \<Rightarrow> string" where
  "language_of locale = (if length locale > 2 then take 2 locale else locale)"

text \<open>The URL that \<open>search\<close> builds before it fetches.\<close>

definition search_url :: "string \<Rightarrow> string \<Rightarrow> string \<Rightarrow> number \<Rightarrow> search_options \<Rightarrow> request_url" where
  "search_url key query locale page options =
     (let startIndex = num_add (num_mul (num_sub page (Num 1)) (Num PAGE_SIZE)) (Num 1);
          language = language_of locale;
          url0 = \<lparr> base = CSE_BASE_URL, searchParams = [] \<rparr>;
          url1 = searchParams_set ''cx'' CSE_ID url0;
          url2 = searchParams_set ''key'' key url1;
          url3 = searchParams_set ''hl'' language url2;
          url4 = searchParams_set ''q'' query url3;
          url5 = searchParams_set ''start'' (Number_toString startIndex) url4;
          url6 = (if noLanguageFilter options \<noteq> Some True
                  then searchParams_set ''lr'' (''lang_'' @ language) url5 else url5);
          url7 = (if truthy (hiddenQuery options)
                  then searchParams_set ''hq'' (or_empty (hiddenQuery options)) url6 else url6)
      in url7)"

definition search ::
  "environment \<Rightarrow> (request_url \<Rightarrow> 'j fetch_outcome) \<Rightarrow> string \<Rightarrow> string \<Rightarrow> number \<Rightarrow> search_options
    \<Rightarrow> (js_error + 'j) \<times> request_url list" where
  "search env fetch query locale page options =
     (if \<not> truthy (API_KEY env) then
        (Inl (Error (''Custom search api key not initialized! '' @
                     ''Set GOOGLE_CUSTOM_SEARCH_API_KEY in Netlify environment variables.'')), [])
      else
        (let u = search_url (or_empty (API_KEY env)) query locale page options
         in case fetch u of
              Rejected e \<Rightarrow> (Inl e, [u])
            | Resolved st body_text body \<Rightarrow>
                if \<not> ok st then
                  (case body_text of
                     Inl e \<Rightarrow> (Inl e, [u])
                   | Inr errorText \<Rightarrow> (Inl (Error ''Invalid response for search query''), [u]))
                else (case body of
                        NotJson e \<Rightarrow> (Inl e, [u])
                      | JsonNull \<Rightarrow>
                          (Inl (TypeError (''Cannot read properties of null (reading '' @ [CHR 0x27] @
                                           ''searchInformation'' @ [CHR 0x27] @ '')'')), [u])
                      | JsonValue v \<Rightarrow> (Inr v, [u]))))"

section \<open>Request handler\<close>

record query_string_parameters =
  qs_q :: "string option"
  qs_page :: "string option"
  qs_locale :: "string option"

record event =
  queryStringParameters :: query_string_parameters
  headers_origin :: "string option"

text \<open>
  The response of the search API as the handler reads it: \<open>searchInformation\<close> with
  its \<open>totalResults\<close> string, and the array \<open>items\<close>; each may be missing.
\<close>

record search_information =
  si_totalResults :: "string option"

record cse_result =
  searchInformation :: "search_information option"
  items :: "raw_item list option"

datatype response_body = ErrorJson string | PlainText string | ResultJson result_envelope

record response =
  statusCode :: nat
  headers :: "(string \<times> string) list"
  body :: response_body

text \<open>
  The loop over the items. Page objects live in a store (\<open>heap\<close>, an object's address
  is its index); the arrays \<open>components\<close> and \<open>pages\<close> hold addresses, so that the
  cleanup that follows the push changes the object the array refers to.
\<close>

record loop_state =
  heap :: "page_object list"
  componentRefs :: "nat list"
  pageRefs :: "nat list"
  highlightComponents :: bool
  componentCount :: nat

definition loop_body :: "string \<Rightarrow> nat \<Rightarrow> raw_item \<Rightarrow> loop_state \<Rightarrow> loop_state" where
  "loop_body locale i item st =
     (let a = length (heap st);
          st1 = st \<lparr> heap := heap st @ [createPageObject item] \<rparr>;
          st2 = (if highlightComponents st1 \<and> i \<le> MAX_HIGHLIGHT_COMPONENT_INDEX \<and>
                    test COMPONENT_REFERENCE_DOC_PATTERN (url (heap st1 ! a))
                 then
                   (let e1 = st1 \<lparr> heap := (heap st1) [a := enrichComponentPageObject item (heap st1 ! a) locale] \<rparr>;
                        e2 = e1 \<lparr> componentRefs := componentRefs e1 @ [a] \<rparr>;
                        e3 = e2 \<lparr> componentCount := componentCount e2 + 1 \<rparr>
                    in if componentCount e3 \<ge> MAX_HIGHLIGHT_COMPONENTS
                       then e3 \<lparr> highlightComponents := False \<rparr> else e3)
                 else st1 \<lparr> pageRefs := pageRefs st1 @ [a] \<rparr>)
      in st2 \<lparr> heap := (heap st2) [a := cleanupTexts (heap st2 ! a)] \<rparr>)"

fun for_items :: "string \<Rightarrow> nat \<Rightarrow> raw_item list \<Rightarrow> loop_state \<Rightarrow> loop_state" where
  "for_items locale i [] st = st"
| "for_items locale i (item # rest') st = for_items locale (Suc i) rest' (loop_body locale i item st)"

definition initial_state :: "bool \<Rightarrow> loop_state" where
  "initial_state highlight =
     \<lparr> heap = [], componentRefs = [], pageRefs = [], highlightComponents = highlight,
       componentCount = 0 \<rparr>"

definition deref :: "loop_state \<Rightarrow> nat list \<Rightarrow> page_object list" where
  "deref st refs = map (\<lambda>a. heap st ! a) refs"

definition access_control :: "event \<Rightarrow> string" where
  "access_control ev = (if truthy (headers_origin ev) then or_empty (headers_origin ev) else ''*'')"

definition searchOptions_of :: "string \<Rightarrow> search_options" where
  "searchOptions_of locale =
     (let o1 = \<lparr> hiddenQuery = Some (''more:pagemap:metatags-page-locale:'' @ locale),
                  noLanguageFilter = None \<rparr>
      in if locale \<noteq> DEFAULT_LOCALE then
           (let o2 = o1 \<lparr> hiddenQuery :=
                       Some (''more:pagemap:metatags-page-locale:'' @ getDefaultLocale @
                             '' OR '' @ or_empty (hiddenQuery o1)) \<rparr>
            in o2 \<lparr> noLanguageFilter := Some True \<rparr>)
         else o1)"

text \<open>The three values the handler reads from the query string.\<close>

definition locale_of :: "query_string_parameters \<Rightarrow> string" where
  "locale_of searchQuery =
     (if truthy (qs_locale searchQuery) then or_empty (qs_locale searchQuery) else DEFAULT_LOCALE)"

definition page_of :: "query_string_parameters \<Rightarrow> number" where
  "page_of searchQuery =
     (if truthy (qs_page searchQuery) then parseInt (or_empty (qs_page searchQuery)) else Num 1)"

definition query_of :: "query_string_parameters \<Rightarrow> string" where
  "query_of searchQuery =
     (if truthy (qs_q searchQuery) then trim (or_empty (qs_q searchQuery)) else [])"

definition handler ::
  "environment \<Rightarrow> (request_url \<Rightarrow> cse_result fetch_outcome) \<Rightarrow> event
    \<Rightarrow> (js_error + response) \<times> request_url list" where
  "handler env fetch ev =
     (let searchQuery = queryStringParameters ev;
          locale = locale_of searchQuery;
          page = page_of searchQuery;
          query = query_of searchQuery;
          searchOptions = searchOptions_of locale
      in if isNaN page \<or> num_lt page (Num 1) \<or> length query = 0 then
           (let error = ''Invalid search params (q='' @ to_display (qs_q searchQuery) @
                        '', page='' @ to_display (qs_page searchQuery) @ '')''
            in (Inr \<lparr> statusCode = 200,
                      headers = [(''Access-Control-Allow-Origin'', access_control ev),
                                 (''Content-Type'', ''application/json''),
                                 (''Cache-Control'', ''no-cache'')],
                      body = ErrorJson error \<rparr>, []))
         else
           (let highlight = num_eq page (Num 1) in
            case search env fetch query locale page searchOptions of
              (Inl err, requests) \<Rightarrow>
                (Inr \<lparr> statusCode = 500,
                       headers = [(''Access-Control-Allow-Origin'', access_control ev),
                                  (''Content-Type'', ''text/plain''),
                                  (''Cache-Control'', ''no-cache'')],
                       body = PlainText (String_of_error err) \<rparr>, requests)
            | (Inr cseResult, requests) \<Rightarrow>
                (case searchInformation cseResult of
                   None \<Rightarrow>
                     (Inl (TypeError (''Cannot read properties of undefined (reading '' @ [CHR 0x27] @ ''totalResults'' @ [CHR 0x27] @ '')'')),
                      requests)
                 | Some info \<Rightarrow>
                     (let totalResults' = parseInt (to_display (si_totalResults info));
                          pageCount' = Math_ceil (num_div totalResults' PAGE_SIZE);
                          st0 = initial_state highlight;
                          looped = (if num_gt totalResults' (Num 0) then
                                      (case items cseResult of
                                         None \<Rightarrow>
                                           Inl (TypeError (''Cannot read properties of undefined (reading '' @
                                                           [CHR 0x27] @ ''length'' @ [CHR 0x27] @ '')''))
                                       | Some its \<Rightarrow> Inr (for_items locale 0 its st0))
                                    else Inr st0)
                      in case looped of
                           Inl err \<Rightarrow> (Inl err, requests)
                         | Inr st \<Rightarrow>
                             (Inr \<lparr> statusCode = 200,
                                    headers = [(''Access-Control-Allow-Origin'', access_control ev),
                                               (''Content-Type'', ''application/json''),
                                               (''Cache-Control'',
                                                 ''max-age='' @ Number_toString (Num RESPONSE_MAX_AGE_search) @
                                                 '', immutable'')],
                                    body = ResultJson
                                      (createResult totalResults' page pageCount'
                                         (deref st (componentRefs st)) (deref st (pageRefs st))
                                         query locale) \<rparr>, requests)))))"

section \<open>Auxiliary notions for the statements\<close>

subsection \<open>The language of a regular expression\<close>

text \<open>
  For a regular expression without anchors and groups, the states \<open>run\<close> lists are
  the ways to split off a prefix of the remaining text that lies in its language.
\<close>

fun simple :: "regex \<Rightarrow> bool" where
  "simple Bol = False"
| "simple Eol = False"
| "simple (Group r) = False"
| "simple (Seq r1 r2) = (simple r1 \<and> simple r2)"
| "simple (Alt r1 r2) = (simple r1 \<and> simple r2)"
| "simple (Opt r) = simple r"
| "simple _ = True"

fun lang :: "regex \<Rightarrow> string set" where
  "lang (Lit w) = {w}"
| "lang (One C) = {[c] | c. in_cls C c}"
| "lang (Plus C) = {x. x \<noteq> [] \<and> (\<forall>c\<in>set x. in_cls C c)}"
| "lang (Star C) = {x. \<forall>c\<in>set x. in_cls C c}"
| "lang (StarLazy C) = {x. \<forall>c\<in>set x. in_cls C c}"
| "lang (Seq r1 r2) = {x @ y | x y. x \<in> lang r1 \<and> y \<in> lang r2}"
| "lang (Alt r1 r2) = lang r1 \<union> lang r2"
| "lang (Opt r) = insert [] (lang r)"
| "lang Bol = {[]}"
| "lang Eol = {[]}"
| "lang (Group r) = lang r"

definition steps :: "string set \<Rightarrow> mstate \<Rightarrow> mstate set" where
  "steps L st = {MState (pos st + length x) zs (cap st) | x zs. rest st = x @ zs \<and> x \<in> L}"

text \<open>
  What a match can reach from a state: a suffix of the remaining text, and a capture
  that is the old one or lies within the remaining text.
\<close>

definition in_reach :: "mstate \<Rightarrow> mstate \<Rightarrow> bool" where
  "in_reach st m \<longleftrightarrow>
     (\<exists>k. rest m = drop k (rest st)) \<and>
     (cap m = cap st \<or> (\<exists>c. cap m = Some c \<and> set c \<subseteq> set (rest st)))"

subsection \<open>The link pattern\<close>

text \<open>
  Regular expressions without a capture group; the part of the link pattern behind
  the opening parenthesis; and the texts in which the link pattern matches somewhere.
\<close>

fun groupless :: "regex \<Rightarrow> bool" where
  "groupless (Group r) = False"
| "groupless (Seq r1 r2) = (groupless r1 \<and> groupless r2)"
| "groupless (Alt r1 r2) = (groupless r1 \<and> groupless r2)"
| "groupless (Opt r) = groupless r"
| "groupless _ = True"

definition has_link :: "string \<Rightarrow> bool" where
  "has_link t \<longleftrightarrow> (\<exists>k\<le>length t. run MARKDOWN_LINK_PATTERN (MState k (drop k t) None) \<noteq> [])"

definition LINK_TAIL :: regex where
  "LINK_TAIL =
     cat [StarLazy (Isnt CHR '')''),
          Opt (cat [Lit ''{{'', Plus (Isnt CHR ''}''), Lit ''}'', Star (Isnt CHR '')'')]),
          Alt (Lit '')'') Eol]"

subsection \<open>The component pattern, part by part\<close>

definition HOST_PART :: regex where
  "HOST_PART = Opt (cat [Lit ''http'', Opt (Lit ''s''), Lit ''://'', Plus (Isnt CHR ''/'')])"

definition SEGMENT_PART :: regex where
  "SEGMENT_PART = Opt (cat [Lit ''/'', Plus (Isnt CHR ''/'')])"

definition NAME_GROUP :: regex where
  "NAME_GROUP = Group (cat [Lit ''amp-'', Plus (Isnt CHR ''/'')])"

definition URL_PREFIX :: regex where
  "URL_PREFIX = Seq HOST_PART (Seq SEGMENT_PART (Lit ''/documentation/components/''))"

text \<open>
  The pattern as the specification words it: an optional scheme and host, an optional
  single path segment, then \<open>/documentation/components/amp-<name>\<close>, where the
  component identifier \<open>amp-<name>\<close> runs up to the next slash or the end.
\<close>

definition scheme_and_host :: "string \<Rightarrow> bool" where
  "scheme_and_host s \<longleftrightarrow>
     (\<exists>host. host \<noteq> [] \<and> CHR ''/'' \<notin> set host \<and> (s = ''http://'' @ host \<or> s = ''https://'' @ host))"

definition path_segment :: "string \<Rightarrow> bool" where
  "path_segment s \<longleftrightarrow> (\<exists>seg. seg \<noteq> [] \<and> CHR ''/'' \<notin> set seg \<and> s = ''/'' @ seg)"

definition spec_component_reference_doc_url :: "string \<Rightarrow> string \<Rightarrow> bool" where
  "spec_component_reference_doc_url u name \<longleftrightarrow>
     (\<exists>origin seg x zs.
        u = origin @ seg @ ''/documentation/components/'' @ name @ zs \<and>
        (origin = [] \<or> scheme_and_host origin) \<and>
        (seg = [] \<or> path_segment seg) \<and>
        name = ''amp-'' @ x \<and> x \<noteq> [] \<and> CHR ''/'' \<notin> set x \<and>
        (zs = [] \<or> hd zs = CHR ''/''))"

subsection \<open>Steps of the handler\<close>

text \<open>The title step of \<open>enrichComponentPageObject\<close>, on the title alone.\<close>

definition cut_title :: "string \<Rightarrow> string" where
  "cut_title t =
     (if t \<noteq> [] then
        (let prefixIndex = lastIndexOf CHR '':'' t in
         if prefixIndex > 0 \<and> prefixIndex + 1 < int (length t)
         then trim (drop (nat (prefixIndex + 1)) t) else t)
      else t)"

text \<open>The test of the loop body, and the invariant of the loop over the items \<open>its\<close>.\<close>

definition classified :: "loop_state \<Rightarrow> nat \<Rightarrow> raw_item \<Rightarrow> bool" where
  "classified st i item \<longleftrightarrow>
     highlightComponents st \<and> i \<le> 7 \<and> test COMPONENT_REFERENCE_DOC_PATTERN (or_empty (link item))"

definition loop_inv :: "bool \<Rightarrow> raw_item list \<Rightarrow> nat \<Rightarrow> loop_state \<Rightarrow> bool" where
  "loop_inv h its i st \<longleftrightarrow>
     length (heap st) = i \<and>
     (\<forall>a<i. url (heap st ! a) = or_empty (link (its ! a))) \<and>
     distinct (componentRefs st @ pageRefs st) \<and>
     set (componentRefs st) \<union> set (pageRefs st) = {0 ..< i} \<and>
     componentCount st = length (componentRefs st) \<and>
     (highlightComponents st \<longrightarrow> h \<and> length (componentRefs st) < 3) \<and>
     length (componentRefs st) \<le> 3 \<and>
     (\<forall>a\<in>set (componentRefs st).
        h \<and> a \<le> 7 \<and> length (filter (\<lambda>b. b < a) (componentRefs st)) < 3 \<and>
        test COMPONENT_REFERENCE_DOC_PATTERN (or_empty (link (its ! a))))"


text \<open>
  The store with which the handler leaves the \<open>if (totalResults > 0)\<close> block: the loop
  has run over the items, or the arrays are still empty.
\<close>

definition loop_result :: "string \<Rightarrow> number \<Rightarrow> number \<Rightarrow> cse_result \<Rightarrow> loop_state \<Rightarrow> bool" where
  "loop_result loc page tr cse st =
     (if num_gt tr (Num 0)
      then (\<exists>its. items cse = Some its \<and> st = for_items loc 0 its (initial_state (num_eq page (Num 1))))
      else st = initial_state (num_eq page (Num 1)))"

section \<open>Example inputs\<close>

definition example_env :: environment where
  "example_env =
     \<lparr> GOOGLE_CUSTOM_SEARCH_API_KEY = Some ''key'', AMP_DEV_CREDENTIAL_GOOGLE_CSE_API_KEY = None \<rparr>"

definition example_item :: "string \<Rightarrow> string \<Rightarrow> raw_item" where
  "example_item t l =
     \<lparr> item_title = Some t, snippet = Some ''a `b` [c](d)'', link = Some l,
       pagemap = Some \<lparr> metatags = Some [[(''twitter:description'', ''about [amp](x)'')]] \<rparr> \<rparr>"

definition example_cse :: "string \<Rightarrow> raw_item list \<Rightarrow> cse_result" where
  "example_cse tr its =
     \<lparr> searchInformation = Some \<lparr> si_totalResults = Some tr \<rparr>, items = Some its \<rparr>"

definition example_fetch :: "cse_result \<Rightarrow> request_url \<Rightarrow> cse_result fetch_outcome" where
  "example_fetch cse u = Resolved 200 (Inr []) (JsonValue cse)"

definition example_event :: "string \<Rightarrow> string \<Rightarrow> string \<Rightarrow> event" where
  "example_event query page loc =
     \<lparr> queryStringParameters = \<lparr> qs_q = Some query, qs_page = Some page, qs_locale = Some loc \<rparr>,
       headers_origin = None \<rparr>"




text \<open>A network failure, and an upstream refusal.\<close>

definition example_fetch_rejecting :: "request_url \<Rightarrow> cse_result fetch_outcome" where
  "example_fetch_rejecting u = Rejected (FetchError ''connect ECONNREFUSED'')"

definition example_fetch_forbidden :: "request_url \<Rightarrow> cse_result fetch_outcome" where
  "example_fetch_forbidden u = Resolved 403 (Inr ''quota exceeded'') (NotJson (FetchError ''invalid json''))"

definition example_env_no_key :: environment where
  "example_env_no_key =
     \<lparr> GOOGLE_CUSTOM_SEARCH_API_KEY = None, AMP_DEV_CREDENTIAL_GOOGLE_CSE_API_KEY = Some [] \<rparr>"

text \<open>A component page of the documentation.\<close>

definition example_component_item :: raw_item where
  "example_component_item =
     example_item ''Documentation: amp-list'' ''https://amp.dev/documentation/components/amp-list/''"

text \<open>
  Page 1 with a batch of five items: four component pages and a guide. The fourth
  component page comes after three components have been collected.
\<close>

definition example_short_item :: "string \<Rightarrow> string \<Rightarrow> raw_item" where
  "example_short_item t l = \<lparr> item_title = Some t, snippet = None, link = Some l, pagemap = None \<rparr>"

definition example_batch :: "raw_item list" where
  "example_batch =
     [example_short_item ''Doc: amp-a'' ''/documentation/components/amp-a'',
      example_short_item ''Doc: amp-b'' ''/documentation/components/amp-b'',
      example_short_item ''Guide'' ''/documentation/guides/x'',
      example_short_item ''Doc: amp-c'' ''/documentation/components/amp-c'',
      example_short_item ''Doc: amp-d'' ''/documentation/components/amp-d'']"

definition example_component_page :: "string \<Rightarrow> page_object" where
  "example_component_page n =
     \<lparr> title = ''amp-'' @ n, description = [], url = ''/documentation/components/amp-'' @ n,
       exampleUrl = Some (''/en/documentation/examples/?q=amp-'' @ n),
       playgroundUrl = Some (''https://playground.amp.dev/#url=%2Fdocumentation%2Fcomponents%2Famp-'' @ n) \<rparr>"

definition example_envelope_first :: result_envelope where
  "example_envelope_first =
     \<lparr> result = \<lparr> totalResults = Num 5, currentPage = Num 1, pageCount = Num 1,
                  components = [example_component_page ''a'', example_component_page ''b'',
                                example_component_page ''c''],
                  pages = [\<lparr> title = ''Guide'', description = [], url = ''/documentation/guides/x'',
                             exampleUrl = None, playgroundUrl = None \<rparr>,
                           \<lparr> title = ''Doc: amp-d'', description = [],
                             url = ''/documentation/components/amp-d'',
                             exampleUrl = None, playgroundUrl = None \<rparr>],
                  isTruncated = None \<rparr>,
       initial = False, nextUrl = None, prevUrl = None \<rparr>"

definition example_response_first :: response where
  "example_response_first =
     \<lparr> statusCode = 200,
       headers = [(''Access-Control-Allow-Origin'', ''*''),
                  (''Content-Type'', ''application/json''),
                  (''Cache-Control'', ''max-age=3600, immutable'')],
       body = ResultJson example_envelope_first \<rparr>"

definition example_requests_first :: "request_url list" where
  "example_requests_first =
     [\<lparr> base = ''https://www.googleapis.com/customsearch/v1'',
        searchParams = [(''cx'', ''a1a3679a4a68c41f5''), (''key'', ''key''), (''hl'', ''en''),
                        (''q'', ''amp''), (''start'', ''1''), (''lr'', ''lang_en''),
                        (''hq'', ''more:pagemap:metatags-page-locale:en'')] \<rparr>]"

section \<open>The regular-expression engine\<close>

lemma run_Lit_iff:
  "m \<in> set (run (Lit w) st) \<longleftrightarrow> (\<exists>zs. rest st = w @ zs \<and> m = MState (pos st + length w) zs (cap st))"
proof -
  have "take (length w) (rest st) = w \<longleftrightarrow> (\<exists>zs. rest st = w @ zs)"
    by (metis append_eq_conv_conj append_take_drop_id)
  then show ?thesis
    by (auto simp: advance_def)
qed

lemma run_length_append:
  "\<forall>c\<in>set x. in_cls C c \<Longrightarrow> run_length C (x @ zs) = length x + run_length C zs"
  by (simp add: run_length_def takeWhile_append2)

lemma take_run_length:
  "k \<le> run_length C s \<Longrightarrow> \<forall>c\<in>set (take k s). in_cls C c"
proof -
  assume k: "k \<le> run_length C s"
  have "take k s = take k (takeWhile (in_cls C) s)"
    using k unfolding run_length_def
    by (metis append_take_drop_id takeWhile_dropWhile_id take_append min.absorb2 diff_is_0_eq' take_0 append_Nil2 take_take min.commute)
  then show ?thesis
    by (metis in_set_takeD set_takeWhileD)
qed

lemma advance_split:
  "k \<le> length (rest st) \<Longrightarrow> advance k st = MState (pos st + length (take k (rest st))) (drop k (rest st)) (cap st)"
  by (simp add: advance_def min_def)

lemma run_length_le: "run_length C s \<le> length s"
  by (simp add: run_length_def length_takeWhile_le)

lemma run_counts_iff:
  assumes "\<And>k. k \<in> K \<Longrightarrow> k \<le> run_length C (rest st)"
  shows "m \<in> (\<lambda>k. advance k st) ` K \<longleftrightarrow>
          (\<exists>x zs. rest st = x @ zs \<and> length x \<in> K \<and> (\<forall>c\<in>set x. in_cls C c) \<and>
                  m = MState (pos st + length x) zs (cap st))"
proof
  assume "m \<in> (\<lambda>k. advance k st) ` K"
  then obtain k where k: "k \<in> K" "m = advance k st" by blast
  have le: "k \<le> length (rest st)" using assms [OF k(1)] run_length_le [of C "rest st"] by simp
  have "rest st = take k (rest st) @ drop k (rest st)" by simp
  moreover have "length (take k (rest st)) \<in> K" using le k(1) by (simp add: min_def)
  moreover have "\<forall>c\<in>set (take k (rest st)). in_cls C c" using take_run_length [OF assms [OF k(1)]] .
  moreover have "m = MState (pos st + length (take k (rest st))) (drop k (rest st)) (cap st)"
    using k(2) advance_split [OF le] by simp
  ultimately show "\<exists>x zs. rest st = x @ zs \<and> length x \<in> K \<and> (\<forall>c\<in>set x. in_cls C c) \<and>
                  m = MState (pos st + length x) zs (cap st)" by blast
next
  assume "\<exists>x zs. rest st = x @ zs \<and> length x \<in> K \<and> (\<forall>c\<in>set x. in_cls C c) \<and>
                  m = MState (pos st + length x) zs (cap st)"
  then obtain x zs where x: "rest st = x @ zs" "length x \<in> K" "m = MState (pos st + length x) zs (cap st)" by blast
  have "m = advance (length x) st" using x by (simp add: advance_def)
  then show "m \<in> (\<lambda>k. advance k st) ` K" using x(2) by blast
qed

lemma first_Seq:
  assumes "run (Seq r1 r2) st = m # ms"
  shows "\<exists>m1\<in>set (run r1 st). \<exists>ms'. run r2 m1 = m # ms'"
proof -
  have "concat (map f xs) = y # ys \<Longrightarrow> \<exists>x\<in>set xs. \<exists>zs. f x = y # zs"
    for f :: "mstate \<Rightarrow> mstate list" and xs y ys
    by (induction xs) (auto simp: append_eq_Cons_conv)
  with assms show ?thesis by simp
qed

lemma first_Plus:
  assumes "run (Plus C) st = m # ms"
  shows "\<exists>x zs. rest st = x @ zs \<and> x \<noteq> [] \<and> (\<forall>c\<in>set x. in_cls C c) \<and>
                (zs = [] \<or> \<not> in_cls C (hd zs)) \<and> m = MState (pos st + length x) zs (cap st)"
proof -
  let ?x = "takeWhile (in_cls C) (rest st)" and ?zs = "dropWhile (in_cls C) (rest st)"
  have n: "run_length C (rest st) \<noteq> 0" using assms by (auto simp: run_length_def)
  then have "rev [1 ..< Suc (run_length C (rest st))] = run_length C (rest st) # rev [1 ..< run_length C (rest st)]"
    by (cases "run_length C (rest st)") auto
  with assms have m: "m = advance (length ?x) st" by (simp add: run_length_def)
  have "rest st = ?x @ ?zs" by simp
  moreover have "?x \<noteq> []" using n by (simp add: run_length_def)
  moreover have "\<forall>c\<in>set ?x. in_cls C c" by (meson set_takeWhileD)
  moreover have "?zs = [] \<or> \<not> in_cls C (hd ?zs)" by (metis hd_dropWhile)
  moreover have "m = MState (pos st + length ?x) ?zs (cap st)"
    unfolding m advance_def by (simp add: dropWhile_eq_drop)
  ultimately show ?thesis by blast
qed

lemma exec_from_Bol_later: "0 < p \<Longrightarrow> exec_from (Seq Bol r) p s = None"
  by (induction s arbitrary: p) (simp_all add: exec_from.simps)

lemma exec_Bol:
  "exec (Seq Bol r) s = (case run r (MState 0 s None) of [] \<Rightarrow> None | m # _ \<Rightarrow> Some m)"
  unfolding exec_def
  by (subst exec_from.simps) (auto simp: exec_from_Bol_later split: list.splits)

lemma steps_iff:
  "m \<in> steps L st \<longleftrightarrow> (\<exists>x zs. rest st = x @ zs \<and> x \<in> L \<and> m = MState (pos st + length x) zs (cap st))"
  by (auto simp: steps_def)

lemma steps_Seq:
  "(\<Union>m1\<in>steps L1 st. steps L2 m1) = steps {x @ y | x y. x \<in> L1 \<and> y \<in> L2} st"
proof (intro set_eqI iffI)
  fix m
  assume "m \<in> (\<Union>m1\<in>steps L1 st. steps L2 m1)"
  then obtain m1 where m1: "m1 \<in> steps L1 st" and m: "m \<in> steps L2 m1" by blast
  from m1 obtain a zs1 where a: "rest st = a @ zs1" "a \<in> L1" "m1 = MState (pos st + length a) zs1 (cap st)"
    unfolding steps_iff by blast
  from m obtain b zs where b: "rest m1 = b @ zs" "b \<in> L2" "m = MState (pos m1 + length b) zs (cap m1)"
    unfolding steps_iff by blast
  have "rest st = (a @ b) @ zs" using a b by simp
  moreover have "a @ b \<in> {x @ y | x y. x \<in> L1 \<and> y \<in> L2}" using a b by blast
  moreover have "m = MState (pos st + length (a @ b)) zs (cap st)" using a b by simp
  ultimately show "m \<in> steps {x @ y | x y. x \<in> L1 \<and> y \<in> L2} st"
    unfolding steps_iff by blast
next
  fix m
  assume "m \<in> steps {x @ y | x y. x \<in> L1 \<and> y \<in> L2} st"
  then obtain a b zs where ab: "rest st = (a @ b) @ zs" "a \<in> L1" "b \<in> L2"
    "m = MState (pos st + length (a @ b)) zs (cap st)"
    unfolding steps_iff by blast
  let ?m1 = "MState (pos st + length a) (b @ zs) (cap st)"
  have "?m1 \<in> steps L1 st" unfolding steps_iff using ab by auto
  moreover have "m \<in> steps L2 ?m1" unfolding steps_iff using ab by auto
  ultimately show "m \<in> (\<Union>m1\<in>steps L1 st. steps L2 m1)" by blast
qed

lemma steps_Un: "steps (A \<union> B) st = steps A st \<union> steps B st"
  by (auto simp: steps_def)

lemma steps_insert_Nil: "steps (insert [] A) st = insert st (steps A st)"
  by (cases st) (auto simp: steps_def)

lemma run_counts_set:
  assumes "\<And>k. k \<in> K \<Longrightarrow> k \<le> run_length C (rest st)"
      and "\<And>x zs. rest st = x @ zs \<Longrightarrow> (\<forall>c\<in>set x. in_cls C c) \<Longrightarrow> P x = (length x \<in> K)"
  shows "(\<lambda>k. advance k st) ` K = steps {x. P x \<and> (\<forall>c\<in>set x. in_cls C c)} st"
proof (intro set_eqI)
  fix m
  have "m \<in> (\<lambda>k. advance k st) ` K \<longleftrightarrow>
          (\<exists>x zs. rest st = x @ zs \<and> length x \<in> K \<and> (\<forall>c\<in>set x. in_cls C c) \<and>
                  m = MState (pos st + length x) zs (cap st))"
    by (rule run_counts_iff) (rule assms(1))
  also have "\<dots> \<longleftrightarrow>
          (\<exists>x zs. rest st = x @ zs \<and> x \<in> {x. P x \<and> (\<forall>c\<in>set x. in_cls C c)} \<and>
                  m = MState (pos st + length x) zs (cap st))"
    using assms(2) by (simp only: mem_Collect_eq) blast
  finally show "m \<in> (\<lambda>k. advance k st) ` K \<longleftrightarrow> m \<in> steps {x. P x \<and> (\<forall>c\<in>set x. in_cls C c)} st"
    unfolding steps_iff .
qed

lemma all_cls_run_length:
  "rest st = x @ zs \<Longrightarrow> \<forall>c\<in>set x. in_cls C c \<Longrightarrow> length x \<le> run_length C (rest st)"
  by (simp add: run_length_append)

lemma run_steps: "simple r \<Longrightarrow> set (run r st) = steps (lang r) st"
proof (induction r arbitrary: st)
  case (Lit w)
  show ?case
    by (intro set_eqI) (simp only: run_Lit_iff steps_iff lang.simps, blast)
next
  case (One C)
  show ?case
    by (cases st; cases "rest st") (auto simp: steps_def advance_def)
next
  case (Plus C)
  have "set (run (Plus C) st) = (\<lambda>k. advance k st) ` {1 .. run_length C (rest st)}"
    unfolding run.simps set_map set_rev set_upt atLeastLessThanSuc_atLeastAtMost ..
  also have "\<dots> = steps {x. x \<noteq> [] \<and> (\<forall>c\<in>set x. in_cls C c)} st"
    by (rule run_counts_set) (use all_cls_run_length in \<open>auto simp: Suc_le_eq\<close>)
  finally show ?case by simp
next
  case (Star C)
  have "set (run (Star C) st) = (\<lambda>k. advance k st) ` {0 .. run_length C (rest st)}"
    unfolding run.simps set_map set_rev set_upt atLeastLessThanSuc_atLeastAtMost ..
  also have "\<dots> = steps {x. True \<and> (\<forall>c\<in>set x. in_cls C c)} st"
    by (rule run_counts_set) (use all_cls_run_length in auto)
  finally show ?case by simp
next
  case (StarLazy C)
  have "set (run (StarLazy C) st) = (\<lambda>k. advance k st) ` {0 .. run_length C (rest st)}"
    unfolding run.simps set_map set_rev set_upt atLeastLessThanSuc_atLeastAtMost ..
  also have "\<dots> = steps {x. True \<and> (\<forall>c\<in>set x. in_cls C c)} st"
    by (rule run_counts_set) (use all_cls_run_length in auto)
  finally show ?case by simp
next
  case (Seq r1 r2)
  then have "set (run (Seq r1 r2) st) = (\<Union>m1\<in>steps (lang r1) st. steps (lang r2) m1)"
    by simp
  then show ?case by (simp only: steps_Seq lang.simps)
next
  case (Alt r1 r2)
  then show ?case by (simp add: steps_Un)
next
  case (Opt r)
  then show ?case by (simp add: steps_insert_Nil)
qed simp_all

section \<open>The component pattern\<close>

text \<open>
  The pattern of the code accepts exactly the URLs the specification describes, and
  what group 1 captures is the component identifier.
\<close>

lemma lang_HOST_PART: "lang HOST_PART = {origin. origin = [] \<or> scheme_and_host origin}"
proof (intro set_eqI iffI)
  fix x assume "x \<in> lang HOST_PART"
  then consider "x = []"
    | h where "h \<noteq> []" "CHR ''/'' \<notin> set h" "x = ''http'' @ [] @ ''://'' @ h"
    | h where "h \<noteq> []" "CHR ''/'' \<notin> set h" "x = ''http'' @ ''s'' @ ''://'' @ h"
    unfolding HOST_PART_def cat.simps lang.simps in_cls.simps by blast
  then show "x \<in> {origin. origin = [] \<or> scheme_and_host origin}"
    by cases (auto simp: scheme_and_host_def)
next
  fix x assume "x \<in> {origin. origin = [] \<or> scheme_and_host origin}"
  then consider "x = []"
    | h where "h \<noteq> []" "CHR ''/'' \<notin> set h" "x = ''http'' @ [] @ ''://'' @ h"
    | h where "h \<noteq> []" "CHR ''/'' \<notin> set h" "x = ''http'' @ ''s'' @ ''://'' @ h"
    by (auto simp: scheme_and_host_def)
  then show "x \<in> lang HOST_PART"
    unfolding HOST_PART_def cat.simps lang.simps in_cls.simps by cases blast+
qed

lemma lang_SEGMENT_PART: "lang SEGMENT_PART = {seg. seg = [] \<or> path_segment seg}"
  unfolding SEGMENT_PART_def cat.simps lang.simps in_cls.simps path_segment_def by blast

lemma run_Seq_assoc: "run (Seq a (Seq b c)) st = run (Seq (Seq a b) c) st"
proof -
  have h: "concat (map f (concat xss)) = concat (map (\<lambda>xs. concat (map f xs)) xss)"
    for f :: "mstate \<Rightarrow> mstate list" and xss
    by (induction xss) auto
  have e: "run (Seq b c) = (\<lambda>x. concat (map (run c) (run b x)))"
    by (rule ext) simp
  have "run (Seq (Seq a b) c) st = concat (map (run c) (concat (map (run b) (run a st))))"
    by simp
  also have "\<dots> = concat (map (\<lambda>xs. concat (map (run c) xs)) (map (run b) (run a st)))"
    by (rule h)
  also have "\<dots> = concat (map (run (Seq b c)) (run a st))"
    unfolding e map_map comp_def ..
  also have "\<dots> = run (Seq a (Seq b c)) st"
    by simp
  finally show ?thesis by (rule sym)
qed

lemma run_Seq_cong:
  assumes "\<And>m. run b m = run b' m"
  shows "run (Seq a b) st = run (Seq a b') st"
proof -
  have "run b = run b'" by (rule ext) (rule assms)
  then show ?thesis by simp
qed

lemma run_component_pattern_body:
  "run (Seq HOST_PART (Seq SEGMENT_PART (Seq (Lit ''/documentation/components/'') NAME_GROUP))) st
     = run (Seq URL_PREFIX NAME_GROUP) st"
proof -
  have "run (Seq HOST_PART (Seq SEGMENT_PART (Seq (Lit ''/documentation/components/'') NAME_GROUP))) st
      = run (Seq HOST_PART (Seq (Seq SEGMENT_PART (Lit ''/documentation/components/'')) NAME_GROUP)) st"
    by (rule run_Seq_cong) (rule run_Seq_assoc)
  also have "\<dots> = run (Seq (Seq HOST_PART (Seq SEGMENT_PART (Lit ''/documentation/components/''))) NAME_GROUP) st"
    by (rule run_Seq_assoc)
  finally show ?thesis unfolding URL_PREFIX_def .
qed

lemma component_pattern_unfold:
  "COMPONENT_REFERENCE_DOC_PATTERN =
     Seq Bol (Seq HOST_PART (Seq SEGMENT_PART (Seq (Lit ''/documentation/components/'') NAME_GROUP)))"
  by (simp add: COMPONENT_REFERENCE_DOC_PATTERN_def HOST_PART_def SEGMENT_PART_def NAME_GROUP_def)

lemma exec_component_pattern:
  "exec COMPONENT_REFERENCE_DOC_PATTERN u =
     (case run (Seq URL_PREFIX NAME_GROUP) (MState 0 u None) of [] \<Rightarrow> None | m # _ \<Rightarrow> Some m)"
  unfolding component_pattern_unfold exec_Bol run_component_pattern_body ..

lemma simple_URL_PREFIX: "simple URL_PREFIX"
  by (simp add: URL_PREFIX_def HOST_PART_def SEGMENT_PART_def)

lemma lang_URL_PREFIX:
  "lang URL_PREFIX =
     {origin @ seg @ ''/documentation/components/'' | origin seg.
        (origin = [] \<or> scheme_and_host origin) \<and> (seg = [] \<or> path_segment seg)}"
  unfolding URL_PREFIX_def lang.simps lang_HOST_PART lang_SEGMENT_PART by blast

lemma first_NAME_GROUP:
  assumes "run NAME_GROUP st = m # ms"
  shows "\<exists>x zs. rest st = ''amp-'' @ x @ zs \<and> x \<noteq> [] \<and> CHR ''/'' \<notin> set x \<and>
                (zs = [] \<or> hd zs = CHR ''/'') \<and> cap m = Some (''amp-'' @ x)"
proof -
  from assms obtain m' ms' where m': "run (Seq (Lit ''amp-'') (Plus (Isnt CHR ''/''))) st = m' # ms'"
    and m: "m = MState (pos m') (rest m') (Some (take (pos m' - pos st) (rest st)))"
    unfolding NAME_GROUP_def cat.simps by (auto simp del: run.simps(8) simp: map_eq_Cons_conv)
  from first_Seq [OF m'] obtain m1 ms1 where m1: "m1 \<in> set (run (Lit ''amp-'') st)"
    and p: "run (Plus (Isnt CHR ''/'')) m1 = m' # ms1" by blast
  from m1 obtain t where t: "rest st = ''amp-'' @ t" "m1 = MState (pos st + length ''amp-'') t (cap st)"
    unfolding run_Lit_iff by blast
  from first_Plus [OF p] obtain x zs where x: "rest m1 = x @ zs" "x \<noteq> []"
    "\<forall>c\<in>set x. in_cls (Isnt CHR ''/'') c" "zs = [] \<or> \<not> in_cls (Isnt CHR ''/'') (hd zs)"
    "m' = MState (pos m1 + length x) zs (cap m1)" by blast
  have "rest st = ''amp-'' @ x @ zs" using t x by simp
  moreover have "CHR ''/'' \<notin> set x" using x(3) by auto
  moreover have "zs = [] \<or> hd zs = CHR ''/''" using x(4) by simp
  moreover have "cap m = Some (''amp-'' @ x)" using m t x by (simp add: eval_nat_numeral)
  ultimately show ?thesis using x(2) by blast
qed

lemma run_NAME_GROUP_nonempty:
  assumes "rest st = ''amp-'' @ x @ zs" "x \<noteq> []" "CHR ''/'' \<notin> set x"
  shows "run NAME_GROUP st \<noteq> []"
proof -
  let ?r = "Seq (Lit ''amp-'') (Plus (Isnt CHR ''/''))"
  have "''amp-'' @ x \<in> lang ?r" using assms(2,3) by auto
  then have "MState (pos st + length (''amp-'' @ x)) zs (cap st) \<in> steps (lang ?r) st"
    unfolding steps_iff using assms(1) by (intro exI [of _ "''amp-'' @ x"] exI [of _ zs]) simp
  then have "set (run ?r st) \<noteq> {}"
    using run_steps [of ?r st] by auto
  then show ?thesis by (simp add: NAME_GROUP_def)
qed

lemma exec_component_pattern_Some:
  assumes "exec COMPONENT_REFERENCE_DOC_PATTERN u = Some m"
  shows "\<exists>name. cap m = Some name \<and> spec_component_reference_doc_url u name"
proof -
  from assms obtain ms where r: "run (Seq URL_PREFIX NAME_GROUP) (MState 0 u None) = m # ms"
    unfolding exec_component_pattern by (auto split: list.splits)
  from first_Seq [OF r] obtain m1 ms1 where m1: "m1 \<in> set (run URL_PREFIX (MState 0 u None))"
    and g: "run NAME_GROUP m1 = m # ms1" by blast
  from m1 obtain pre rest1 where pre: "u = pre @ rest1" "pre \<in> lang URL_PREFIX" "rest m1 = rest1"
    unfolding run_steps [OF simple_URL_PREFIX] steps_iff by auto
  from pre(2) obtain origin seg where o: "pre = origin @ seg @ ''/documentation/components/''"
    "origin = [] \<or> scheme_and_host origin" "seg = [] \<or> path_segment seg"
    unfolding lang_URL_PREFIX by blast
  from first_NAME_GROUP [OF g] obtain x zs where x: "rest m1 = ''amp-'' @ x @ zs" "x \<noteq> []"
    "CHR ''/'' \<notin> set x" "zs = [] \<or> hd zs = CHR ''/''" "cap m = Some (''amp-'' @ x)" by blast
  have "u = origin @ seg @ ''/documentation/components/'' @ (''amp-'' @ x) @ zs"
    using pre o x by simp
  then have "spec_component_reference_doc_url u (''amp-'' @ x)"
    unfolding spec_component_reference_doc_url_def using o(2,3) x(2,3,4) by blast
  with x(5) show ?thesis by blast
qed

lemma test_component_pattern:
  "test COMPONENT_REFERENCE_DOC_PATTERN u \<longleftrightarrow> (\<exists>name. spec_component_reference_doc_url u name)"
proof
  assume "test COMPONENT_REFERENCE_DOC_PATTERN u"
  then obtain m where "exec COMPONENT_REFERENCE_DOC_PATTERN u = Some m"
    unfolding test_def by blast
  from exec_component_pattern_Some [OF this] show "\<exists>name. spec_component_reference_doc_url u name" by blast
next
  assume "\<exists>name. spec_component_reference_doc_url u name"
  then obtain origin seg x zs where u: "u = origin @ seg @ ''/documentation/components/'' @ (''amp-'' @ x) @ zs"
    and o: "origin = [] \<or> scheme_and_host origin" "seg = [] \<or> path_segment seg"
    and x: "x \<noteq> []" "CHR ''/'' \<notin> set x"
    unfolding spec_component_reference_doc_url_def by blast
  let ?pre = "origin @ seg @ ''/documentation/components/''"
  let ?m1 = "MState (0 + length ?pre) (''amp-'' @ x @ zs) None"
  have "?pre \<in> lang URL_PREFIX" unfolding lang_URL_PREFIX using o by blast
  then have "?m1 \<in> steps (lang URL_PREFIX) (MState 0 u None)"
    unfolding steps_iff using u by (intro exI [of _ ?pre] exI [of _ "''amp-'' @ x @ zs"]) simp
  then have m1: "?m1 \<in> set (run URL_PREFIX (MState 0 u None))"
    unfolding run_steps [OF simple_URL_PREFIX] .
  have "run NAME_GROUP ?m1 \<noteq> []"
    by (rule run_NAME_GROUP_nonempty [of _ x zs]) (use x in simp_all)
  with m1 have "run (Seq URL_PREFIX NAME_GROUP) (MState 0 u None) \<noteq> []"
    by (simp del: run.simps(1-7) run.simps(9-11)) blast
  then show "test COMPONENT_REFERENCE_DOC_PATTERN u"
    unfolding test_def exec_component_pattern by (auto split: list.splits)
qed

text \<open>A URL has at most one component identifier.\<close>

lemma segment_unique:
  assumes "a @ b = a' @ b'" "CHR ''/'' \<notin> set a" "CHR ''/'' \<notin> set a'"
    "b = [] \<or> hd b = CHR ''/''" "b' = [] \<or> hd b' = CHR ''/''"
  shows "a = a' \<and> b = b'"
proof -
  have t: "takeWhile (\<lambda>c. c \<noteq> CHR ''/'') (x @ y) = x"
    if "CHR ''/'' \<notin> set x" "y = [] \<or> hd y = CHR ''/''" for x y :: string
    using that by (cases y) (auto simp: takeWhile_append2 takeWhile_tail)
  have "a = takeWhile (\<lambda>c. c \<noteq> CHR ''/'') (a @ b)" using t [OF assms(2,4)] by simp
  also have "\<dots> = a'" unfolding assms(1) using t [OF assms(3,5)] by simp
  finally have "a = a'" .
  with assms(1) show ?thesis by simp
qed

lemma path_unique:
  assumes "seg @ ''/documentation/components/'' @ ''amp-'' @ x @ zs =
           seg' @ ''/documentation/components/'' @ ''amp-'' @ x' @ zs'"
    and "seg = [] \<or> path_segment seg" "seg' = [] \<or> path_segment seg'"
    and "CHR ''/'' \<notin> set x" "CHR ''/'' \<notin> set x'"
    and "zs = [] \<or> hd zs = CHR ''/''" "zs' = [] \<or> hd zs' = CHR ''/''"
  shows "x = x'"
proof -
  have both_empty: "x = x'" if "seg = []" "seg' = []"
    using assms(1) segment_unique [of x zs x' zs'] assms(4-7) that by simp
  have mixed: False
    if e: "''/documentation/components/'' @ ''amp-'' @ y @ ys =
           (''/'' @ g) @ ''/documentation/components/'' @ ''amp-'' @ y' @ ys'"
      and g: "CHR ''/'' \<notin> set g" for y ys g y' ys'
  proof -
    from e have "''documentation'' @ (''/components/'' @ ''amp-'' @ y @ ys) =
                 g @ (''/documentation/components/'' @ ''amp-'' @ y' @ ys')" by simp
    from segment_unique [OF this _ g] have "''/components/'' @ ''amp-'' @ y @ ys =
                 ''/documentation/components/'' @ ''amp-'' @ y' @ ys'" by simp
    then show False by simp
  qed
  from assms(2,3) consider "seg = []" "seg' = []"
    | g where "seg = []" "seg' = ''/'' @ g" "CHR ''/'' \<notin> set g"
    | g where "seg' = []" "seg = ''/'' @ g" "CHR ''/'' \<notin> set g"
    | g g' where "seg = ''/'' @ g" "seg' = ''/'' @ g'" "CHR ''/'' \<notin> set g" "CHR ''/'' \<notin> set g'"
    unfolding path_segment_def by blast
  then show ?thesis
  proof cases
    case 1
    then show ?thesis by (rule both_empty)
  next
    case 2
    with assms(1) mixed [of x zs g x' zs'] show ?thesis by simp
  next
    case 3
    with assms(1) mixed [of x' zs' g x zs] show ?thesis by simp
  next
    case 4
    with assms(1) have "g @ (''/documentation/components/'' @ ''amp-'' @ x @ zs) =
        g' @ (''/documentation/components/'' @ ''amp-'' @ x' @ zs')" by simp
    from segment_unique [OF this 4(3,4)] have "x @ zs = x' @ zs'" by simp
    from segment_unique [OF this assms(4-7)] show ?thesis by simp
  qed
qed

lemma spec_component_name_unique:
  assumes "spec_component_reference_doc_url u n" "spec_component_reference_doc_url u n'"
  shows "n = n'"
proof -
  from assms(1) obtain origin seg x zs where
    u: "u = origin @ seg @ ''/documentation/components/'' @ n @ zs" and
    o: "origin = [] \<or> scheme_and_host origin" and s: "seg = [] \<or> path_segment seg" and
    n: "n = ''amp-'' @ x" and x: "CHR ''/'' \<notin> set x" and z: "zs = [] \<or> hd zs = CHR ''/''"
    unfolding spec_component_reference_doc_url_def by blast
  from assms(2) obtain origin' seg' x' zs' where
    u': "u = origin' @ seg' @ ''/documentation/components/'' @ n' @ zs'" and
    o': "origin' = [] \<or> scheme_and_host origin'" and s': "seg' = [] \<or> path_segment seg'" and
    n': "n' = ''amp-'' @ x'" and x': "CHR ''/'' \<notin> set x'" and z': "zs' = [] \<or> hd zs' = CHR ''/''"
    unfolding spec_component_reference_doc_url_def by blast
  let ?r = "seg @ ''/documentation/components/'' @ ''amp-'' @ x @ zs"
  let ?r' = "seg' @ ''/documentation/components/'' @ ''amp-'' @ x' @ zs'"
  have slash: "?r \<noteq> [] \<and> hd ?r = CHR ''/''" "?r' \<noteq> [] \<and> hd ?r' = CHR ''/''"
    using s s' unfolding path_segment_def by auto
  have e: "origin @ ?r = origin' @ ?r'" using u u' n n' by simp
  have "?r = ?r'"
  proof -
    from o o' consider "origin = []" "origin' = []"
      | "origin = []" "scheme_and_host origin'"
      | "scheme_and_host origin" "origin' = []"
      | "scheme_and_host origin" "scheme_and_host origin'" by blast
    then show ?thesis
    proof cases
      case 1
      with e show ?thesis by simp
    next
      case 2
      then have "hd (origin' @ ?r') = CHR ''h''" unfolding scheme_and_host_def by auto
      with e 2(1) slash(1) show ?thesis by simp
    next
      case 3
      then have "hd (origin @ ?r) = CHR ''h''" unfolding scheme_and_host_def by auto
      with e 3(2) slash(2) show ?thesis by simp
    next
      case 4
      then obtain h h' where h: "h \<noteq> []" "CHR ''/'' \<notin> set h" "origin = ''http://'' @ h \<or> origin = ''https://'' @ h"
        and h': "h' \<noteq> []" "CHR ''/'' \<notin> set h'" "origin' = ''http://'' @ h' \<or> origin' = ''https://'' @ h'"
        unfolding scheme_and_host_def by blast
      from h(3) h'(3) e have "h @ ?r = h' @ ?r'" by auto
      from segment_unique [OF this h(2) h'(2)] slash show ?thesis by blast
    qed
  qed
  from path_unique [OF this s s' x x' z z'] show ?thesis using n n' by simp
qed

section \<open>Enrichment of component pages\<close>

lemma lastIndexOf_split:
  assumes "s = pre @ c # suf" "c \<notin> set suf"
  shows "lastIndexOf c s = int (length pre)"
proof -
  have "takeWhile (\<lambda>x. x \<noteq> c) (rev s) = rev suf"
    using assms by (auto simp: takeWhile_append2 takeWhile_tail)
  then show ?thesis using assms(1) by (simp add: lastIndexOf_def)
qed

lemma lastIndexOf_absent: "c \<notin> set s \<Longrightarrow> lastIndexOf c s = - 1"
  by (simp add: lastIndexOf_def)

lemma cut_title_split:
  assumes "t = pre @ CHR '':'' # suf" "CHR '':'' \<notin> set suf"
  shows "cut_title t = (if pre \<noteq> [] \<and> suf \<noteq> [] then trim suf else t)"
proof -
  have i: "lastIndexOf CHR '':'' t = int (length pre)"
    by (rule lastIndexOf_split) (rule assms)+
  have n: "nat (int (length pre) + 1) = Suc (length pre)" by simp
  show ?thesis
    unfolding cut_title_def Let_def i n using assms(1) by auto
qed

lemma cut_title_absent: "CHR '':'' \<notin> set t \<Longrightarrow> cut_title t = t"
  by (simp add: cut_title_def lastIndexOf_absent)

lemma cut_title_cases:
  "(\<forall>pre suf. t = pre @ CHR '':'' # suf \<and> CHR '':'' \<notin> set suf \<and> pre \<noteq> [] \<and> suf \<noteq> []
       \<longrightarrow> cut_title t = trim suf) \<and>
   ((\<nexists>pre suf. t = pre @ CHR '':'' # suf \<and> CHR '':'' \<notin> set suf \<and> pre \<noteq> [] \<and> suf \<noteq> [])
       \<longrightarrow> cut_title t = t)"
proof (intro conjI allI impI)
  fix pre suf
  assume "t = pre @ CHR '':'' # suf \<and> CHR '':'' \<notin> set suf \<and> pre \<noteq> [] \<and> suf \<noteq> []"
  then show "cut_title t = trim suf" using cut_title_split [of t pre suf] by simp
next
  assume n: "\<nexists>pre suf. t = pre @ CHR '':'' # suf \<and> CHR '':'' \<notin> set suf \<and> pre \<noteq> [] \<and> suf \<noteq> []"
  show "cut_title t = t"
  proof (cases "CHR '':'' \<in> set t")
    case False
    then show ?thesis by (rule cut_title_absent)
  next
    case True
    then obtain pre suf where s: "t = pre @ CHR '':'' # suf" "CHR '':'' \<notin> set suf"
      by (meson split_list_last)
    with n have "\<not> (pre \<noteq> [] \<and> suf \<noteq> [])" by blast
    then show ?thesis using cut_title_split [OF s] by auto
  qed
qed

lemma enrich_title:
  "title (enrichComponentPageObject item page loc) = cut_title (title page)"
  by (simp add: enrichComponentPageObject_def addExampleAndPlaygroundLink_def cut_title_def Let_def
           split: option.splits)

lemma enrich_url:
  "url (enrichComponentPageObject item page loc) = url page"
  by (simp add: enrichComponentPageObject_def addExampleAndPlaygroundLink_def Let_def
           split: option.splits)

lemma enrich_description:
  "description (enrichComponentPageObject item page loc) =
     (case getCseItemMetaTagValue item DESCRIPTION_META_TAG of
        None \<Rightarrow> description page | Some v \<Rightarrow> if v \<noteq> [] then v else description page)"
  by (simp add: enrichComponentPageObject_def addExampleAndPlaygroundLink_def Let_def
           split: option.splits)

lemma getCseItemMetaTagValue_Some:
  "getCseItemMetaTagValue item tag = Some v \<longleftrightarrow>
     (\<exists>pm d ds. pagemap item = Some pm \<and> metatags pm = Some (d # ds) \<and> map_of d tag = Some v \<and> v \<noteq> [])"
  by (cases "pagemap item"; cases "metatags (the (pagemap item))"; cases "the (metatags (the (pagemap item)))")
     (auto simp: getCseItemMetaTagValue_def)

lemma enrich_links_match:
  assumes "exec COMPONENT_REFERENCE_DOC_PATTERN (url page) = Some m" "cap m = Some name" "name \<noteq> []"
  shows "exampleUrl (enrichComponentPageObject item page loc) =
           Some (''/'' @ loc @ ''/documentation/examples/?q='' @ name)"
    and "playgroundUrl (enrichComponentPageObject item page loc) =
           Some (''https://playground.amp.dev/#url='' @ encodeURIComponent (url page))"
  using assms
  by (simp_all add: enrichComponentPageObject_def addExampleAndPlaygroundLink_def Let_def)

lemma enrich_links_no_match:
  assumes "exec COMPONENT_REFERENCE_DOC_PATTERN (url page) = None"
  shows "exampleUrl (enrichComponentPageObject item page loc) = exampleUrl page"
    and "playgroundUrl (enrichComponentPageObject item page loc) = playgroundUrl page"
  using assms
  by (simp_all add: enrichComponentPageObject_def addExampleAndPlaygroundLink_def Let_def)

text \<open>
  Claim C9. \<open>enrichComponentPageObject\<close>: the description becomes the item's
  \<open>twitter:description\<close> value of \<open>pagemap.metatags[0]\<close> when that value is present
  (a non-empty string; an empty value is falsy and counts as absent), and is kept
  otherwise; the title becomes the trimmed text after its last colon exactly when that
  colon is at a position above 0 and at least one character follows it; when the URL
  matches the component pattern (for the pattern of the code: has the form the
  specification describes, with \<open>componentName\<close> its component identifier),
  \<open>exampleUrl\<close> is \<open>/{locale}/documentation/examples/?q={componentName}\<close> and
  \<open>playgroundUrl\<close> is \<open>https://playground.amp.dev/#url={urlencoded page.url}\<close>, and
  otherwise both are left as they were.
\<close>

theorem enrichComponentPageObject_spec:
  fixes item :: raw_item and page :: page_object and loc :: string
  defines "page' \<equiv> enrichComponentPageObject item page loc"
  shows "(\<forall>pm d ds v.
            pagemap item = Some pm \<and> metatags pm = Some (d # ds) \<and>
            map_of d ''twitter:description'' = Some v \<and> v \<noteq> [] \<longrightarrow> description page' = v) \<and>
         ((\<nexists>pm d ds v.
            pagemap item = Some pm \<and> metatags pm = Some (d # ds) \<and>
            map_of d ''twitter:description'' = Some v \<and> v \<noteq> []) \<longrightarrow> description page' = description page) \<and>
         (\<forall>pre suf.
            title page = pre @ CHR '':'' # suf \<and> CHR '':'' \<notin> set suf \<and> pre \<noteq> [] \<and> suf \<noteq> []
            \<longrightarrow> title page' = trim suf) \<and>
         ((\<nexists>pre suf.
            title page = pre @ CHR '':'' # suf \<and> CHR '':'' \<notin> set suf \<and> pre \<noteq> [] \<and> suf \<noteq> [])
            \<longrightarrow> title page' = title page) \<and>
         url page' = url page \<and>
         (\<forall>componentName.
            spec_component_reference_doc_url (url page) componentName \<longrightarrow>
              test COMPONENT_REFERENCE_DOC_PATTERN (url page) \<and>
              exampleUrl page' = Some (''/'' @ loc @ ''/documentation/examples/?q='' @ componentName) \<and>
              playgroundUrl page' =
                Some (''https://playground.amp.dev/#url='' @ encodeURIComponent (url page))) \<and>
         ((\<nexists>componentName. spec_component_reference_doc_url (url page) componentName) \<longrightarrow>
            \<not> test COMPONENT_REFERENCE_DOC_PATTERN (url page) \<and>
            exampleUrl page' = exampleUrl page \<and> playgroundUrl page' = playgroundUrl page)"
proof -
  let ?present = "\<lambda>v. \<exists>pm d ds. pagemap item = Some pm \<and> metatags pm = Some (d # ds) \<and>
                     map_of d ''twitter:description'' = Some v \<and> v \<noteq> []"
  have g: "getCseItemMetaTagValue item DESCRIPTION_META_TAG = Some v \<longleftrightarrow> ?present v" for v
    unfolding getCseItemMetaTagValue_Some DESCRIPTION_META_TAG_def ..
  have d1: "description page' = v" if "?present v" for v
  proof -
    from that have "getCseItemMetaTagValue item DESCRIPTION_META_TAG = Some v" "v \<noteq> []"
      unfolding g by blast+
    then show ?thesis unfolding page'_def enrich_description by simp
  qed
  have d2: "description page' = description page" if "\<nexists>v. ?present v"
  proof -
    have "getCseItemMetaTagValue item DESCRIPTION_META_TAG = None"
    proof (cases "getCseItemMetaTagValue item DESCRIPTION_META_TAG")
      case (Some v)
      then have "?present v" unfolding g .
      with that show ?thesis by blast
    qed simp
    then show ?thesis unfolding page'_def enrich_description by simp
  qed
  have t: "title page' = cut_title (title page)"
    unfolding page'_def by (rule enrich_title)
  have u: "url page' = url page"
    unfolding page'_def by (rule enrich_url)
  have l1: "test COMPONENT_REFERENCE_DOC_PATTERN (url page) \<and>
            exampleUrl page' = Some (''/'' @ loc @ ''/documentation/examples/?q='' @ componentName) \<and>
            playgroundUrl page' =
              Some (''https://playground.amp.dev/#url='' @ encodeURIComponent (url page))"
    if c: "spec_component_reference_doc_url (url page) componentName" for componentName
  proof -
    from c have t: "test COMPONENT_REFERENCE_DOC_PATTERN (url page)"
      unfolding test_component_pattern by blast
    then obtain m where m: "exec COMPONENT_REFERENCE_DOC_PATTERN (url page) = Some m"
      unfolding test_def by blast
    from exec_component_pattern_Some [OF m] obtain name
      where n: "cap m = Some name" "spec_component_reference_doc_url (url page) name" by blast
    from spec_component_name_unique [OF n(2) c] have e: "name = componentName" .
    from c have "componentName \<noteq> []" unfolding spec_component_reference_doc_url_def by auto
    from enrich_links_match [OF m n(1) [unfolded e] this, of item loc] t show ?thesis
      unfolding page'_def by blast
  qed
  have l2: "\<not> test COMPONENT_REFERENCE_DOC_PATTERN (url page) \<and>
            exampleUrl page' = exampleUrl page \<and> playgroundUrl page' = playgroundUrl page"
    if "\<nexists>componentName. spec_component_reference_doc_url (url page) componentName"
  proof -
    from that have t: "\<not> test COMPONENT_REFERENCE_DOC_PATTERN (url page)"
      unfolding test_component_pattern .
    then have "exec COMPONENT_REFERENCE_DOC_PATTERN (url page) = None"
      unfolding test_def by simp
    from enrich_links_no_match [OF this, of item loc] t show ?thesis
      unfolding page'_def by simp
  qed
  show ?thesis
    unfolding t using d1 d2 u l1 l2 cut_title_cases [of "title page"] by blast
qed

theorem enrichComponentPageObject_spec_witness:
  "(pagemap example_component_item = Some \<lparr> metatags = Some [[(''twitter:description'', ''about [amp](x)'')]] \<rparr> \<and>
    metatags \<lparr> metatags = Some [[(''twitter:description'', ''about [amp](x)'')]] \<rparr>
      = Some ([(''twitter:description'', ''about [amp](x)'')] # []) \<and>
    map_of [(''twitter:description'', ''about [amp](x)'')] ''twitter:description'' = Some ''about [amp](x)'' \<and>
    ''about [amp](x)'' \<noteq> []) \<and>
   description (enrichComponentPageObject example_component_item (createPageObject example_component_item) ''en'')
     = ''about [amp](x)'' \<and>
   (title (createPageObject example_component_item) = ''Documentation'' @ CHR '':'' # '' amp-list'' \<and>
    CHR '':'' \<notin> set '' amp-list'' \<and> ''Documentation'' \<noteq> [] \<and> '' amp-list'' \<noteq> []) \<and>
   title (enrichComponentPageObject example_component_item (createPageObject example_component_item) ''en'')
     = ''amp-list'' \<and>
   spec_component_reference_doc_url (url (createPageObject example_component_item)) ''amp-list'' \<and>
   exampleUrl (enrichComponentPageObject example_component_item (createPageObject example_component_item) ''en'')
     = Some ''/en/documentation/examples/?q=amp-list'' \<and>
   playgroundUrl (enrichComponentPageObject example_component_item (createPageObject example_component_item) ''en'')
     = Some ''https://playground.amp.dev/#url=https%3A%2F%2Famp.dev%2Fdocumentation%2Fcomponents%2Famp-list%2F''"
proof -
  let ?I = example_component_item
  let ?P = "createPageObject example_component_item"
  have hd: "pagemap ?I = Some \<lparr> metatags = Some [[(''twitter:description'', ''about [amp](x)'')]] \<rparr> \<and>
    metatags \<lparr> metatags = Some [[(''twitter:description'', ''about [amp](x)'')]] \<rparr>
      = Some ([(''twitter:description'', ''about [amp](x)'')] # []) \<and>
    map_of [(''twitter:description'', ''about [amp](x)'')] ''twitter:description'' = Some ''about [amp](x)'' \<and>
    ''about [amp](x)'' \<noteq> []"
    by (simp add: example_component_item_def example_item_def)
  have ht: "title ?P = ''Documentation'' @ CHR '':'' # '' amp-list'' \<and>
    CHR '':'' \<notin> set '' amp-list'' \<and> ''Documentation'' \<noteq> [] \<and> '' amp-list'' \<noteq> []"
    by (simp add: createPageObject_def example_component_item_def example_item_def)
  have u: "url ?P = ''https://amp.dev'' @ [] @ ''/documentation/components/'' @ ''amp-list'' @ ''/''"
    by (simp add: createPageObject_def example_component_item_def example_item_def)
  have "scheme_and_host ''https://amp.dev''"
    unfolding scheme_and_host_def by (intro exI [of _ "''amp.dev''"]) simp
  then have hu: "spec_component_reference_doc_url (url ?P) ''amp-list''"
    unfolding spec_component_reference_doc_url_def u
    by (intro exI [of _ "''https://amp.dev''"] exI [of _ "[]"] exI [of _ "''list''"] exI [of _ "''/''"]) simp
  have tr: "trim '' amp-list'' = ''amp-list''"
    by code_simp
  have en: "encodeURIComponent (url ?P) = ''https%3A%2F%2Famp.dev%2Fdocumentation%2Fcomponents%2Famp-list%2F''"
    by code_simp
  note s = enrichComponentPageObject_spec [of ?I ?P "''en''"]
  note a = s [THEN conjunct1, rule_format, OF hd]
  note b = s [THEN conjunct2, THEN conjunct2, THEN conjunct1, rule_format, OF ht, unfolded tr]
  note c = s [THEN conjunct2, THEN conjunct2, THEN conjunct2, THEN conjunct2, THEN conjunct2,
      THEN conjunct1, rule_format, OF hu, unfolded en]
  have c1: "exampleUrl (enrichComponentPageObject ?I ?P ''en'') = Some ''/en/documentation/examples/?q=amp-list''"
    using c by simp
  have c2: "playgroundUrl (enrichComponentPageObject ?I ?P ''en'')
     = Some ''https://playground.amp.dev/#url=https%3A%2F%2Famp.dev%2Fdocumentation%2Fcomponents%2Famp-list%2F''"
    using c by simp
  show ?thesis
    by (intro conjI hd [THEN conjunct1] hd [THEN conjunct2, THEN conjunct1]
          hd [THEN conjunct2, THEN conjunct2, THEN conjunct1]
          hd [THEN conjunct2, THEN conjunct2, THEN conjunct2] a
          ht [THEN conjunct1] ht [THEN conjunct2, THEN conjunct1]
          ht [THEN conjunct2, THEN conjunct2, THEN conjunct1]
          ht [THEN conjunct2, THEN conjunct2, THEN conjunct2] b hu c1 c2)
qed

section \<open>The classification loop\<close>

lemma cleanupTexts_url: "url (cleanupTexts p) = url p"
  by (simp add: cleanupTexts_def Let_def)

lemma loop_body_refs:
  "componentRefs (loop_body loc i item st) =
     (if classified st i item then componentRefs st @ [length (heap st)] else componentRefs st)"
  "pageRefs (loop_body loc i item st) =
     (if classified st i item then pageRefs st else pageRefs st @ [length (heap st)])"
  "componentCount (loop_body loc i item st) =
     (if classified st i item then componentCount st + 1 else componentCount st)"
  "highlightComponents (loop_body loc i item st) =
     (if classified st i item then componentCount st + 1 < 3 else highlightComponents st)"
  by (auto simp: loop_body_def classified_def Let_def createPageObject_def
        MAX_HIGHLIGHT_COMPONENT_INDEX_def MAX_HIGHLIGHT_COMPONENTS_def)

lemma loop_body_heap:
  "length (heap (loop_body loc i item st)) = Suc (length (heap st))"
  "b < length (heap st) \<Longrightarrow> heap (loop_body loc i item st) ! b = heap st ! b"
  "url (heap (loop_body loc i item st) ! length (heap st)) = or_empty (link item)"
  by (auto simp: loop_body_def Let_def createPageObject_def nth_append cleanupTexts_url enrich_url)

lemma loop_inv_initial: "loop_inv h its 0 (initial_state h)"
  by (simp add: loop_inv_def initial_state_def)

lemma filter_below_all: "\<forall>b\<in>set xs. b < (a::nat) \<Longrightarrow> filter (\<lambda>b. b < a) xs = xs"
  by (induction xs) auto

lemma loop_inv_step:
  assumes inv: "loop_inv h its i st" and i: "i < length its"
  shows "loop_inv h its (Suc i) (loop_body loc i (its ! i) st)"
proof -
  let ?st' = "loop_body loc i (its ! i) st"
  from inv have len: "length (heap st) = i"
    and urls: "\<forall>a<i. url (heap st ! a) = or_empty (link (its ! a))"
    and dist: "distinct (componentRefs st @ pageRefs st)"
    and cover: "set (componentRefs st) \<union> set (pageRefs st) = {0 ..< i}"
    and count: "componentCount st = length (componentRefs st)"
    and high: "highlightComponents st \<longrightarrow> h \<and> length (componentRefs st) < 3"
    and le3: "length (componentRefs st) \<le> 3"
    and comps: "\<forall>a\<in>set (componentRefs st).
        h \<and> a \<le> 7 \<and> length (filter (\<lambda>b. b < a) (componentRefs st)) < 3 \<and>
        test COMPONENT_REFERENCE_DOC_PATTERN (or_empty (link (its ! a)))"
    unfolding loop_inv_def by blast+
  have below: "\<forall>b\<in>set (componentRefs st). b < i" "\<forall>b\<in>set (pageRefs st). b < i"
    using cover by auto
  have fresh: "i \<notin> set (componentRefs st)" "i \<notin> set (pageRefs st)"
    using below by auto
  have 1: "length (heap ?st') = Suc i"
    by (simp add: loop_body_heap len)
  have 2: "\<forall>a<Suc i. url (heap ?st' ! a) = or_empty (link (its ! a))"
  proof (intro allI impI)
    fix a assume "a < Suc i"
    then consider "a < i" | "a = i" by linarith
    then show "url (heap ?st' ! a) = or_empty (link (its ! a))"
    proof cases
      case 1
      then show ?thesis using urls loop_body_heap(2) [of a st loc i "its ! i"] len by simp
    next
      case 2
      then show ?thesis using loop_body_heap(3) [of loc i "its ! i" st] len by simp
    qed
  qed
  show ?thesis
  proof (cases "classified st i (its ! i)")
    case True
    then have c: "highlightComponents st" "i \<le> 7"
      "test COMPONENT_REFERENCE_DOC_PATTERN (or_empty (link (its ! i)))"
      unfolding classified_def by blast+
    from c(1) high have h: h and lt3: "length (componentRefs st) < 3" by blast+
    have r: "componentRefs ?st' = componentRefs st @ [i]" "pageRefs ?st' = pageRefs st"
      "componentCount ?st' = componentCount st + 1"
      "highlightComponents ?st' = (componentCount st + 1 < 3)"
      using True by (simp_all add: loop_body_refs len)
    have 3: "distinct (componentRefs ?st' @ pageRefs ?st')"
      unfolding r using dist fresh by auto
    have 4: "set (componentRefs ?st') \<union> set (pageRefs ?st') = {0 ..< Suc i}"
      unfolding r using cover by auto
    have 5: "componentCount ?st' = length (componentRefs ?st')"
      unfolding r using count by simp
    have 6: "highlightComponents ?st' \<longrightarrow> h \<and> length (componentRefs ?st') < 3"
      unfolding r using h count by simp
    have 7: "length (componentRefs ?st') \<le> 3"
      unfolding r using lt3 by simp
    have 8: "\<forall>a\<in>set (componentRefs ?st').
        h \<and> a \<le> 7 \<and> length (filter (\<lambda>b. b < a) (componentRefs ?st')) < 3 \<and>
        test COMPONENT_REFERENCE_DOC_PATTERN (or_empty (link (its ! a)))"
    proof
      fix a assume "a \<in> set (componentRefs ?st')"
      then consider "a \<in> set (componentRefs st)" | "a = i" unfolding r by auto
      then show "h \<and> a \<le> 7 \<and> length (filter (\<lambda>b. b < a) (componentRefs ?st')) < 3 \<and>
        test COMPONENT_REFERENCE_DOC_PATTERN (or_empty (link (its ! a)))"
      proof cases
        case 1
        then have "a < i" using below by blast
        then have "filter (\<lambda>b. b < a) (componentRefs ?st') = filter (\<lambda>b. b < a) (componentRefs st)"
          unfolding r by simp
        then show ?thesis using comps 1 by simp
      next
        case 2
        have "filter (\<lambda>b. b < a) (componentRefs ?st') = componentRefs st"
          unfolding r 2 using filter_below_all [OF below(1)] by simp
        then show ?thesis using h c lt3 2 by simp
      qed
    qed
    show ?thesis
      unfolding loop_inv_def using 1 2 3 4 5 6 7 8 by blast
  next
    case False
    have r: "componentRefs ?st' = componentRefs st" "pageRefs ?st' = pageRefs st @ [i]"
      "componentCount ?st' = componentCount st"
      "highlightComponents ?st' = highlightComponents st"
      using False by (simp_all add: loop_body_refs len)
    have 3: "distinct (componentRefs ?st' @ pageRefs ?st')"
      unfolding r using dist fresh by auto
    have 4: "set (componentRefs ?st') \<union> set (pageRefs ?st') = {0 ..< Suc i}"
      unfolding r using cover by auto
    show ?thesis
      unfolding loop_inv_def using 1 2 3 4 count high le3 comps unfolding r by blast
  qed
qed

lemma for_items_inv:
  assumes "loop_inv h its i st" and "rest' = drop i its" and "i \<le> length its"
  shows "loop_inv h its (length its) (for_items loc i rest' st)"
  using assms
proof (induction rest' arbitrary: i st)
  case Nil
  then show ?case by simp
next
  case (Cons item rest')
  from Cons.prems(2) have i: "i < length its"
    by (cases "i < length its") auto
  from Cons.prems(2) Cons_nth_drop_Suc [OF i] have "item # rest' = its ! i # drop (Suc i) its"
    by simp
  then have item: "item = its ! i" and r: "rest' = drop (Suc i) its"
    by simp_all
  have "loop_inv h its (Suc i) (loop_body loc i item st)"
    unfolding item by (rule loop_inv_step) (use Cons.prems i in auto)
  from Cons.IH [OF this r] i show ?case by simp
qed

lemma for_items_final:
  "loop_inv h its (length its) (for_items loc 0 its (initial_state h))"
  by (rule for_items_inv [OF loop_inv_initial]) simp_all

section \<open>Text cleanup\<close>

text \<open>
  Claim C1, as stated, fails: cleaning \<open>[[a](b)](c)\<close> gives \<open>[a](c)\<close>, and cleaning
  that again gives \<open>a\<close>. The first pass takes \<open>[a\<close> for the label of the link
  \<open>[[a](b)\<close> and so uncovers a new link.
\<close>

theorem cleanupText_idempotent_counterexample:
  "cleanupText ''[[a](b)](c)'' = ''[a](c)'' \<and>
   cleanupText (cleanupText ''[[a](b)](c)'') = ''a'' \<and>
   cleanupText (cleanupText ''[[a](b)](c)'') \<noteq> cleanupText ''[[a](b)](c)''"
  by code_simp

lemma replace_backtick:
  "replace_from BACKTICK_PATTERN [Text [CHR 0x27]] p s = map (\<lambda>c. if c = CHR ''`'' then CHR 0x27 else c) s"
  unfolding BACKTICK_PATTERN_def
proof (induction s arbitrary: p)
  case Nil
  show ?case by (subst replace_from.simps) simp
next
  case (Cons c cs)
  show ?case
    by (subst replace_from.simps) (simp add: advance_def Cons.IH)
qed

lemma in_reach_refl: "in_reach st st"
  unfolding in_reach_def by (auto intro: exI [of _ 0])

lemma in_reach_advance: "in_reach st (advance k st)"
  unfolding in_reach_def advance_def by auto

lemma in_reach_trans:
  assumes "in_reach st m1" "in_reach m1 m"
  shows "in_reach st m"
proof -
  from assms obtain k1 k2 where k: "rest m1 = drop k1 (rest st)" "rest m = drop k2 (rest m1)"
    unfolding in_reach_def by blast
  then have r: "rest m = drop (k1 + k2) (rest st)" by (simp add: add.commute)
  have sub: "set (rest m1) \<subseteq> set (rest st)" unfolding k(1) by (rule set_drop_subset)
  from assms(2) consider "cap m = cap m1" | c where "cap m = Some c" "set c \<subseteq> set (rest m1)"
    unfolding in_reach_def by blast
  then have "cap m = cap st \<or> (\<exists>c. cap m = Some c \<and> set c \<subseteq> set (rest st))"
  proof cases
    case 1
    then show ?thesis using assms(1) unfolding in_reach_def by auto
  next
    case 2
    then show ?thesis using sub by blast
  qed
  with r show ?thesis unfolding in_reach_def by blast
qed

lemma run_in_reach: "m \<in> set (run r st) \<Longrightarrow> in_reach st m"
proof (induction r arbitrary: st m)
  case (Lit w)
  then show ?case by (auto simp: in_reach_advance split: if_splits)
next
  case (One C)
  then show ?case by (auto simp: in_reach_advance split: list.splits if_splits)
next
  case (Plus C)
  then show ?case by (auto simp: in_reach_advance)
next
  case (Star C)
  then show ?case by (auto simp: in_reach_advance)
next
  case (StarLazy C)
  then show ?case by (auto simp: in_reach_advance)
next
  case Bol
  then show ?case by (auto simp: in_reach_refl split: if_splits)
next
  case Eol
  then show ?case by (auto simp: in_reach_refl split: if_splits)
next
  case (Seq r1 r2)
  then obtain m1 where "m1 \<in> set (run r1 st)" "m \<in> set (run r2 m1)" by auto
  then show ?case using Seq.IH in_reach_trans by blast
next
  case (Alt r1 r2)
  then show ?case by auto
next
  case (Opt r)
  then show ?case by (auto simp: in_reach_refl)
next
  case (Group r)
  then obtain m' where m': "m' \<in> set (run r st)"
    and m: "m = MState (pos m') (rest m') (Some (take (pos m' - pos st) (rest st)))" by auto
  from Group.IH [OF m'] have "\<exists>k. rest m' = drop k (rest st)" unfolding in_reach_def by blast
  moreover have "set (take (pos m' - pos st) (rest st)) \<subseteq> set (rest st)" by (rule set_take_subset)
  ultimately show ?case unfolding in_reach_def m by simp
qed

lemma expand_GroupRef_subset:
  assumes "in_reach (MState p s None) m"
  shows "set (expand [GroupRef] m) \<subseteq> set s"
  using assms unfolding in_reach_def by (auto split: option.splits)

lemma rest_subset:
  assumes "in_reach (MState p s None) m"
  shows "set (rest m) \<subseteq> set s"
proof -
  from assms obtain k where "rest m = drop k s" unfolding in_reach_def by auto
  then show ?thesis by (simp add: set_drop_subset)
qed

lemma replace_from_subset_aux: "t = [GroupRef] \<Longrightarrow> set (replace_from r t p s) \<subseteq> set s"
proof (induction r t p s rule: replace_from.induct)
  case (1 r t p s)
  note t = \<open>t = [GroupRef]\<close>
  show ?case
  proof (cases "run r (MState p s None)")
    case Nil
    note none = Nil
    show ?thesis
    proof (cases s)
      case Nil
      with none show ?thesis by (subst replace_from.simps) simp
    next
      case (Cons c cs)
      from "1.IH"(1) [OF none Cons t]
      have "set (replace_from r t (Suc p) cs) \<subseteq> set cs" .
      with Cons none show ?thesis
        by (subst replace_from.simps) auto
    qed
  next
    case (Cons m ms)
    note some = Cons
    then have "m \<in> set (run r (MState p s None))" by simp
    then have w: "in_reach (MState p s None) m" by (rule run_in_reach)
    note e = expand_GroupRef_subset [OF w, folded t] and rs = rest_subset [OF w]
    show ?thesis
    proof (cases "length (rest m) < length s")
      case True
      from "1.IH"(2) [OF some True t] rs
      have "set (replace_from r t (pos m) (rest m)) \<subseteq> set s" by blast
      with some True e show ?thesis
        by (subst replace_from.simps) simp
    next
      case False
      show ?thesis
      proof (cases s)
        case Nil
        with some False e show ?thesis by (subst replace_from.simps) simp
      next
        case (Cons c cs)
        from "1.IH"(3) [OF some False Cons t]
        have "set (replace_from r t (Suc p) cs) \<subseteq> set cs" .
        with Cons some False e show ?thesis
          by (subst replace_from.simps) auto
      qed
    qed
  qed
qed

lemma replace_from_subset: "set (replace_from r [GroupRef] p s) \<subseteq> set s"
  by (rule replace_from_subset_aux) simp


lemma run_link_no_bracket:
  assumes "rest st = [] \<or> hd (rest st) \<noteq> CHR ''[''"
  shows "run MARKDOWN_LINK_PATTERN st = []"
proof -
  have "run (Lit ''['') st = []"
    using assms by (cases "rest st") auto
  then show ?thesis
    unfolding MARKDOWN_LINK_PATTERN_def cat.simps run.simps(8) by simp
qed

lemma replace_link_no_bracket:
  "CHR ''['' \<notin> set s \<Longrightarrow> replace_from MARKDOWN_LINK_PATTERN t p s = s"
proof (induction s arbitrary: p)
  case Nil
  show ?case by (subst replace_from.simps) (simp add: run_link_no_bracket)
next
  case (Cons c cs)
  then have "run MARKDOWN_LINK_PATTERN (MState p (c # cs) None) = []"
    by (intro run_link_no_bracket) auto
  with Cons show ?case by (subst replace_from.simps) simp
qed

lemma cleanupText_no_backtick: "CHR ''`'' \<notin> set (cleanupText s)"
proof -
  let ?text1 = "replace_global BACKTICK_PATTERN [Text [CHR 0x27]] s"
  have "CHR ''`'' \<notin> set ?text1"
    unfolding replace_global_def replace_backtick by auto
  moreover have "set (cleanupText s) \<subseteq> set ?text1"
    unfolding cleanupText_def Let_def replace_global_def [of MARKDOWN_LINK_PATTERN]
    by (rule replace_from_subset)
  ultimately show ?thesis by blast
qed

lemma cleanupText_fixed:
  assumes "CHR ''`'' \<notin> set s" "CHR ''['' \<notin> set s"
  shows "cleanupText s = s"
proof -
  have "replace_global BACKTICK_PATTERN [Text [CHR 0x27]] s = s"
    unfolding replace_global_def replace_backtick using assms(1) by (induction s) auto
  then show ?thesis
    unfolding cleanupText_def Let_def
    by (simp add: replace_global_def [of MARKDOWN_LINK_PATTERN] replace_link_no_bracket assms(2))
qed

lemma run_groupless_cap: "groupless r \<Longrightarrow> m \<in> set (run r st) \<Longrightarrow> cap m = cap st"
proof (induction r arbitrary: st m)
  case (Seq r1 r2)
  then obtain m1 where "m1 \<in> set (run r1 st)" "m \<in> set (run r2 m1)" by auto
  with Seq show ?case by fastforce
qed (auto simp: advance_def split: if_splits list.splits)

lemma run_Seq_iff: "m \<in> set (run (Seq r1 r2) st) \<longleftrightarrow> (\<exists>m1\<in>set (run r1 st). m \<in> set (run r2 m1))"
  by simp

lemma run_label_group:
  assumes "m2 \<in> set (run (Group (Plus C)) m1)"
  shows "\<exists>label. label \<noteq> [] \<and> rest m1 = label @ rest m2 \<and> cap m2 = Some label"
proof -
  from assms obtain m' where m': "m' \<in> set (run (Plus C) m1)"
    and m2: "m2 = MState (pos m') (rest m') (Some (take (pos m' - pos m1) (rest m1)))"
    by auto
  from m' have "m' \<in> steps (lang (Plus C)) m1"
    using run_steps [of "Plus C" m1] by simp
  then obtain x zs where x: "rest m1 = x @ zs" "x \<noteq> []" "m' = MState (pos m1 + length x) zs (cap m1)"
    unfolding steps_iff by auto
  show ?thesis
    by (intro exI [of _ x]) (simp add: m2 x)
qed

lemma link_match_shape:
  assumes "m \<in> set (run MARKDOWN_LINK_PATTERN st)"
  shows "\<exists>label r4 j. label \<noteq> [] \<and> rest st = ''['' @ label @ '']('' @ r4 \<and>
            cap m = Some label \<and> rest m = drop j r4"
proof -
  have P: "MARKDOWN_LINK_PATTERN =
      Seq (Lit ''['') (Seq (Group (Plus (Isnt CHR '']''))) (Seq (Lit '']'') (Seq (Lit ''('') LINK_TAIL)))"
    by (simp add: MARKDOWN_LINK_PATTERN_def LINK_TAIL_def)
  from assms obtain m1 m2 m3 m4 where
    m1: "m1 \<in> set (run (Lit ''['') st)" and
    m2: "m2 \<in> set (run (Group (Plus (Isnt CHR '']''))) m1)" and
    m3: "m3 \<in> set (run (Lit '']'') m2)" and
    m4: "m4 \<in> set (run (Lit ''('') m3)" and
    m: "m \<in> set (run LINK_TAIL m4)"
    unfolding P run_Seq_iff by blast
  from m1 have r1: "rest st = ''['' @ rest m1" unfolding run_Lit_iff by auto
  from run_label_group [OF m2] obtain label where
    l: "label \<noteq> []" "rest m1 = label @ rest m2" "cap m2 = Some label" by blast
  from m3 have r3: "rest m2 = '']'' @ rest m3" "cap m3 = cap m2" unfolding run_Lit_iff by auto
  from m4 have r4: "rest m3 = ''('' @ rest m4" "cap m4 = cap m3" unfolding run_Lit_iff by auto
  have "groupless LINK_TAIL" by (simp add: LINK_TAIL_def)
  from run_groupless_cap [OF this m] have c: "cap m = cap m4" .
  from run_in_reach [OF m] obtain j where j: "rest m = drop j (rest m4)"
    unfolding in_reach_def by blast
  show ?thesis
    by (intro exI [of _ label] exI [of _ "rest m4"] exI [of _ j])
       (simp add: l r1 r3 r4 c j)
qed

lemma link_match_shorter:
  assumes "run MARKDOWN_LINK_PATTERN (MState p s None) = m # ms"
  shows "length (expand [GroupRef] m) + length (rest m) + 3 \<le> length s"
proof -
  from assms have "m \<in> set (run MARKDOWN_LINK_PATTERN (MState p s None))" by simp
  from link_match_shape [OF this] obtain label r4 j where
    "rest (MState p s None) = ''['' @ label @ '']('' @ r4" "cap m = Some label" "rest m = drop j r4"
    by blast
  then show ?thesis by simp
qed

lemma replace_link_length: "length (replace_from MARKDOWN_LINK_PATTERN [GroupRef] p s) \<le> length s"
proof (induction s arbitrary: p rule: length_induct)
  case (1 s)
  show ?case
  proof (cases "run MARKDOWN_LINK_PATTERN (MState p s None)")
    case Nil
    show ?thesis
    proof (cases s)
      case (Cons c cs)
      with "1.IH" have "length (replace_from MARKDOWN_LINK_PATTERN [GroupRef] (Suc p) cs) \<le> length cs"
        by simp
      with Cons Nil show ?thesis by (subst replace_from.simps) simp
    qed (use Nil in \<open>subst replace_from.simps, simp\<close>)
  next
    case (Cons m ms)
    from link_match_shorter [OF Cons] have sh: "length (expand [GroupRef] m) + length (rest m) + 3 \<le> length s" .
    then have lt: "length (rest m) < length s" by simp
    with "1.IH" have "length (replace_from MARKDOWN_LINK_PATTERN [GroupRef] (pos m) (rest m)) \<le> length (rest m)"
      by simp
    with Cons lt sh show ?thesis by (subst replace_from.simps) simp
  qed
qed

lemma replace_link_shrinks:
  assumes "\<exists>k\<le>length s. run MARKDOWN_LINK_PATTERN (MState (p + k) (drop k s) None) \<noteq> []"
  shows "length (replace_from MARKDOWN_LINK_PATTERN [GroupRef] p s) < length s"
  using assms
proof (induction s arbitrary: p)
  case Nil
  then obtain m ms where r: "run MARKDOWN_LINK_PATTERN (MState p [] None) = m # ms"
    by (cases "run MARKDOWN_LINK_PATTERN (MState p [] None)") auto
  from link_match_shorter [OF r] show ?case by simp
next
  case (Cons c cs)
  show ?case
  proof (cases "run MARKDOWN_LINK_PATTERN (MState p (c # cs) None)")
    case (Cons m ms)
    from link_match_shorter [OF Cons]
    have sh: "length (expand [GroupRef] m) + length (rest m) + 3 \<le> length (c # cs)" .
    then have lt: "length (rest m) < length (c # cs)" by simp
    have "length (replace_from MARKDOWN_LINK_PATTERN [GroupRef] (pos m) (rest m)) \<le> length (rest m)"
      by (rule replace_link_length)
    with Cons lt sh show ?thesis by (subst replace_from.simps) simp
  next
    case Nil
    from Cons.prems obtain k where k: "k \<le> length (c # cs)"
      "run MARKDOWN_LINK_PATTERN (MState (p + k) (drop k (c # cs)) None) \<noteq> []" by blast
    with Nil have "k \<noteq> 0" by (cases k) auto
    then obtain k' where k': "k = Suc k'" by (cases k) auto
    with k have "\<exists>k\<le>length cs. run MARKDOWN_LINK_PATTERN (MState (Suc p + k) (drop k cs) None) \<noteq> []"
      by (intro exI [of _ k']) simp
    from Cons.IH [OF this] Nil show ?thesis by (subst replace_from.simps) simp
  qed
qed

lemma replace_no_match:
  assumes "\<forall>k\<le>length s. run r (MState (p + k) (drop k s) None) = []"
  shows "replace_from r t p s = s"
  using assms
proof (induction s arbitrary: p)
  case Nil
  then show ?case by (subst replace_from.simps) simp
next
  case (Cons c cs)
  from Cons.prems have 0: "run r (MState p (c # cs) None) = []"
    by (metis add.right_neutral drop0 le0)
  have "\<forall>k\<le>length cs. run r (MState (Suc p + k) (drop k cs) None) = []"
  proof (intro allI impI)
    fix k assume "k \<le> length cs"
    with Cons.prems have "run r (MState (p + Suc k) (drop (Suc k) (c # cs)) None) = []"
      by (metis Suc_le_mono length_Cons)
    then show "run r (MState (Suc p + k) (drop k cs) None) = []" by simp
  qed
  from Cons.IH [OF this] 0 show ?case by (subst replace_from.simps) simp
qed

lemma replace_link_fixed_iff:
  "replace_from MARKDOWN_LINK_PATTERN [GroupRef] 0 t = t \<longleftrightarrow> \<not> has_link t"
proof
  assume f: "replace_from MARKDOWN_LINK_PATTERN [GroupRef] 0 t = t"
  show "\<not> has_link t"
  proof
    assume "has_link t"
    then have "\<exists>k\<le>length t. run MARKDOWN_LINK_PATTERN (MState (0 + k) (drop k t) None) \<noteq> []"
      unfolding has_link_def by simp
    from replace_link_shrinks [OF this] f show False by simp
  qed
next
  assume "\<not> has_link t"
  then have "\<forall>k\<le>length t. run MARKDOWN_LINK_PATTERN (MState (0 + k) (drop k t) None) = []"
    unfolding has_link_def by simp
  then show "replace_from MARKDOWN_LINK_PATTERN [GroupRef] 0 t = t"
    by (rule replace_no_match)
qed

lemma cleanupText_no_backtick_step:
  assumes "CHR ''`'' \<notin> set t"
  shows "cleanupText t = replace_from MARKDOWN_LINK_PATTERN [GroupRef] 0 t"
proof -
  have "replace_global BACKTICK_PATTERN [Text [CHR 0x27]] t = t"
    unfolding replace_global_def replace_backtick using assms by (induction t) auto
  then show ?thesis
    unfolding cleanupText_def Let_def by (simp add: replace_global_def [of MARKDOWN_LINK_PATTERN])
qed

lemma has_link_bracket: "has_link t \<Longrightarrow> CHR ''['' \<in> set t"
proof -
  assume "has_link t"
  then obtain k where k: "k \<le> length t" "run MARKDOWN_LINK_PATTERN (MState k (drop k t) None) \<noteq> []"
    unfolding has_link_def by blast
  then have "\<not> (rest (MState k (drop k t) None) = [] \<or> hd (rest (MState k (drop k t) None)) \<noteq> CHR ''['')"
    using run_link_no_bracket by blast
  then have "drop k t \<noteq> []" "hd (drop k t) = CHR ''[''" by simp_all
  then have "CHR ''['' \<in> set (drop k t)" by (metis hd_in_set)
  then show ?thesis by (meson in_set_dropD)
qed

text \<open>
  Claim C1, amended. The cleaned text never holds a backtick, and cleaning it again
  gives the same string exactly when no link is left in it for the pattern to match;
  in particular whenever it holds no opening bracket.
\<close>

theorem cleanupText_twice:
  "CHR ''`'' \<notin> set (cleanupText s) \<and>
   (cleanupText (cleanupText s) = cleanupText s \<longleftrightarrow> \<not> has_link (cleanupText s)) \<and>
   (CHR ''['' \<notin> set (cleanupText s) \<longrightarrow> cleanupText (cleanupText s) = cleanupText s)"
proof -
  have b: "CHR ''`'' \<notin> set (cleanupText s)" by (rule cleanupText_no_backtick)
  have i: "cleanupText (cleanupText s) = cleanupText s \<longleftrightarrow> \<not> has_link (cleanupText s)"
    unfolding cleanupText_no_backtick_step [OF b] by (rule replace_link_fixed_iff)
  from b i has_link_bracket show ?thesis by blast
qed

theorem cleanupText_twice_witness:
  "CHR ''['' \<notin> set (cleanupText ''see [the `doc`]({{g.doc(1)}}) here'') \<and>
   cleanupText (cleanupText ''see [the `doc`]({{g.doc(1)}}) here'')
     = cleanupText ''see [the `doc`]({{g.doc(1)}}) here'' \<and>
   cleanupText ''see [the `doc`]({{g.doc(1)}}) here'' = ''see the '' @ [CHR 0x27] @ ''doc'' @ [CHR 0x27] @ '' here''"
proof -
  have v: "cleanupText ''see [the `doc`]({{g.doc(1)}}) here'' = ''see the '' @ [CHR 0x27] @ ''doc'' @ [CHR 0x27] @ '' here''"
    by code_simp
  have h: "CHR ''['' \<notin> set (cleanupText ''see [the `doc`]({{g.doc(1)}}) here'')"
    unfolding v by simp
  from cleanupText_twice [of "''see [the `doc`]({{g.doc(1)}}) here''", THEN conjunct2, THEN conjunct2, rule_format, OF h]
    h v show ?thesis by (intro conjI)
qed

section \<open>The shape of the handler's runs\<close>

lemma handler_invalid:
  assumes "isNaN (page_of (queryStringParameters ev)) \<or> num_lt (page_of (queryStringParameters ev)) (Num 1)
            \<or> query_of (queryStringParameters ev) = []"
  shows "handler env fetch ev =
     (Inr \<lparr> statusCode = 200,
            headers = [(''Access-Control-Allow-Origin'', access_control ev),
                       (''Content-Type'', ''application/json''),
                       (''Cache-Control'', ''no-cache'')],
            body = ErrorJson (''Invalid search params (q='' @ to_display (qs_q (queryStringParameters ev)) @
                        '', page='' @ to_display (qs_page (queryStringParameters ev)) @ '')'') \<rparr>, [])"
  using assms by (auto simp: handler_def Let_def)

lemma handler_envelope:
  assumes "handler env fetch ev = (Inr resp, reqs)" and "body resp = ResultJson e"
  shows "\<exists>cse info st.
           \<not> isNaN (page_of (queryStringParameters ev)) \<and>
           \<not> num_lt (page_of (queryStringParameters ev)) (Num 1) \<and>
           query_of (queryStringParameters ev) \<noteq> [] \<and>
           search env fetch (query_of (queryStringParameters ev)) (locale_of (queryStringParameters ev))
              (page_of (queryStringParameters ev)) (searchOptions_of (locale_of (queryStringParameters ev)))
             = (Inr cse, reqs) \<and>
           searchInformation cse = Some info \<and>
           loop_result (locale_of (queryStringParameters ev)) (page_of (queryStringParameters ev))
              (parseInt (to_display (si_totalResults info))) cse st \<and>
           e = createResult (parseInt (to_display (si_totalResults info)))
                 (page_of (queryStringParameters ev))
                 (Math_ceil (num_div (parseInt (to_display (si_totalResults info))) PAGE_SIZE))
                 (deref st (componentRefs st)) (deref st (pageRefs st))
                 (query_of (queryStringParameters ev)) (locale_of (queryStringParameters ev))"
  using assms
  by (auto simp: handler_def Let_def loop_result_def simp del: Number_toString.simps split: if_splits prod.splits sum.splits option.splits)

lemma createResult_fields:
  "totalResults (result (createResult tr page lastPage cs ps query locale)) = tr"
  "currentPage (result (createResult tr page lastPage cs ps query locale)) = page"
  "pageCount (result (createResult tr page lastPage cs ps query locale)) = lastPage"
  "components (result (createResult tr page lastPage cs ps query locale)) = cs"
  "pages (result (createResult tr page lastPage cs ps query locale)) = ps"
  by (simp_all add: createResult_def Let_def)






section \<open>Pagination\<close>








section \<open>Invalid requests\<close>

text \<open>
  Claim C3. When the parsed page is not a number, or is below 1, or the trimmed query
  is empty, the handler answers with status 200 and the JSON body \<open>{error: message}\<close>,
  the message holding the \<open>q\<close> and \<open>page\<close> values of the request; nothing is fetched,
  and the answer depends neither on the environment nor on the search API.
\<close>

theorem invalid_request_response:
  assumes "isNaN (page_of (queryStringParameters ev)) \<or>
           num_lt (page_of (queryStringParameters ev)) (Num 1) \<or>
           query_of (queryStringParameters ev) = []"
  shows "\<exists>resp. handler env fetch ev = (Inr resp, []) \<and>
           statusCode resp = 200 \<and>
           body resp = ErrorJson (''Invalid search params (q='' @ to_display (qs_q (queryStringParameters ev)) @
                                  '', page='' @ to_display (qs_page (queryStringParameters ev)) @ '')'')"
  by (simp add: handler_invalid [OF assms])

theorem invalid_request_response_witness:
  "num_lt (page_of (queryStringParameters (example_event ''amp'' ''0'' ''en''))) (Num 1) \<and>
   (\<exists>resp. handler example_env (example_fetch (example_cse ''250'' [])) (example_event ''amp'' ''0'' ''en'')
              = (Inr resp, []) \<and>
           statusCode resp = 200 \<and> body resp = ErrorJson ''Invalid search params (q=amp, page=0)'')"
proof -
  have h: "num_lt (page_of (queryStringParameters (example_event ''amp'' ''0'' ''en''))) (Num 1)"
    by code_simp
  show ?thesis
    using invalid_request_response [of "example_event ''amp'' ''0'' ''en''" example_env
        "example_fetch (example_cse ''250'' [])"] h
    by (simp add: example_event_def)
qed

section \<open>Locale scoping of the outbound query\<close>

lemma map_of_params_set_same: "map_of (params_set k v ps) k = Some v"
  by (induction ps) auto

lemma map_of_params_set_other: "k' \<noteq> k \<Longrightarrow> map_of (params_set k v ps) k' = map_of ps k'"
proof (induction ps)
  case Nil
  then show ?case by simp
next
  case (Cons p ps)
  have "map_of (filter (\<lambda>p. fst p \<noteq> k) ps) k' = map_of ps k'" if "k' \<noteq> k" for ps :: "(string \<times> string) list"
    using that by (induction ps) auto
  with Cons show ?case by (cases p) auto
qed

lemma search_requests:
  assumes "truthy (API_KEY env)"
  shows "snd (search env fetch query loc page opts) = [search_url (or_empty (API_KEY env)) query loc page opts]"
  using assms
  by (simp add: search_def Let_def split: fetch_outcome.splits json_body.splits sum.splits)

lemma handler_requests:
  assumes "\<not> isNaN (page_of (queryStringParameters ev))"
      and "\<not> num_lt (page_of (queryStringParameters ev)) (Num 1)"
      and "query_of (queryStringParameters ev) \<noteq> []"
  shows "snd (handler env fetch ev) =
           snd (search env fetch (query_of (queryStringParameters ev)) (locale_of (queryStringParameters ev))
              (page_of (queryStringParameters ev)) (searchOptions_of (locale_of (queryStringParameters ev))))"
  using assms
  by (simp add: handler_def Let_def del: Number_toString.simps split: prod.splits sum.splits option.splits)

lemma search_url_hq:
  "map_of (searchParams (search_url key query loc page (searchOptions_of loc))) ''hq''
     = hiddenQuery (searchOptions_of loc)"
  by (simp add: search_url_def searchOptions_of_def Let_def searchParams_set_def map_of_params_set_same
           del: Number_toString.simps)

lemma search_url_lr:
  "map_of (searchParams (search_url key query loc page opts)) ''lr''
     = (if noLanguageFilter opts \<noteq> Some True then Some (''lang_'' @ language_of loc) else None)"
  by (simp add: search_url_def Let_def searchParams_set_def map_of_params_set_same map_of_params_set_other
           del: Number_toString.simps)

text \<open>
  Claim C7. For a request that reaches the search client: when the locale is not
  \<open>en\<close>, the hidden query is the clause for \<open>en\<close> and the clause for the locale joined
  with \<open> OR \<close>, \<open>noLanguageFilter\<close> is set and the outbound URL has no \<open>lr\<close>
  parameter; when the locale is \<open>en\<close>, the hidden query is the single clause and
  \<open>lr=lang_en\<close> is set.
\<close>

theorem locale_scoping:
  assumes "\<not> isNaN (page_of (queryStringParameters ev))"
      and "\<not> num_lt (page_of (queryStringParameters ev)) (Num 1)"
      and "query_of (queryStringParameters ev) \<noteq> []"
      and "truthy (API_KEY env)"
  shows "\<exists>u. snd (handler env fetch ev) = [u] \<and>
           (if locale_of (queryStringParameters ev) \<noteq> ''en''
            then map_of (searchParams u) ''hq'' =
                   Some (''more:pagemap:metatags-page-locale:en'' @ '' OR '' @
                         ''more:pagemap:metatags-page-locale:'' @ locale_of (queryStringParameters ev)) \<and>
                 map_of (searchParams u) ''lr'' = None \<and>
                 noLanguageFilter (searchOptions_of (locale_of (queryStringParameters ev))) = Some True
            else map_of (searchParams u) ''hq'' = Some ''more:pagemap:metatags-page-locale:en'' \<and>
                 map_of (searchParams u) ''lr'' = Some ''lang_en'')"
proof -
  let ?loc = "locale_of (queryStringParameters ev)"
  let ?u = "search_url (or_empty (API_KEY env)) (query_of (queryStringParameters ev)) ?loc
              (page_of (queryStringParameters ev)) (searchOptions_of ?loc)"
  have r: "snd (handler env fetch ev) = [?u]"
    by (simp add: handler_requests [OF assms(1-3)] search_requests [OF assms(4)])
  have "map_of (searchParams ?u) ''hq'' =
          (if ?loc \<noteq> ''en''
           then Some (''more:pagemap:metatags-page-locale:en'' @ '' OR '' @
                      ''more:pagemap:metatags-page-locale:'' @ ?loc)
           else Some ''more:pagemap:metatags-page-locale:en'')"
    unfolding search_url_hq
    by (simp add: searchOptions_of_def Let_def DEFAULT_LOCALE_def getDefaultLocale_def)
  moreover have "map_of (searchParams ?u) ''lr'' =
          (if ?loc \<noteq> ''en'' then None else Some ''lang_en'')"
    unfolding search_url_lr
    by (simp add: searchOptions_of_def Let_def DEFAULT_LOCALE_def language_of_def)
  moreover have "?loc \<noteq> ''en'' \<Longrightarrow> noLanguageFilter (searchOptions_of ?loc) = Some True"
    by (simp add: searchOptions_of_def Let_def DEFAULT_LOCALE_def)
  ultimately show ?thesis using r by auto
qed


theorem locale_scoping_witness:
  "\<not> isNaN (page_of (queryStringParameters (example_event ''amp'' ''1'' ''de''))) \<and>
   \<not> num_lt (page_of (queryStringParameters (example_event ''amp'' ''1'' ''de''))) (Num 1) \<and>
   query_of (queryStringParameters (example_event ''amp'' ''1'' ''de'')) \<noteq> [] \<and>
   truthy (API_KEY example_env) \<and>
   (\<exists>u. snd (handler example_env (example_fetch (example_cse ''0'' [])) (example_event ''amp'' ''1'' ''de'')) = [u] \<and>
        map_of (searchParams u) ''hq'' =
          Some ''more:pagemap:metatags-page-locale:en OR more:pagemap:metatags-page-locale:de'' \<and>
        map_of (searchParams u) ''lr'' = None)"
proof -
  let ?ev = "example_event ''amp'' ''1'' ''de''"
  have h1: "\<not> isNaN (page_of (queryStringParameters ?ev))" by code_simp
  have h2: "\<not> num_lt (page_of (queryStringParameters ?ev)) (Num 1)" by code_simp
  have h3: "query_of (queryStringParameters ?ev) \<noteq> []" by code_simp
  have h4: "truthy (API_KEY example_env)" by code_simp
  have l: "locale_of (queryStringParameters ?ev) = ''de''" by code_simp
  show ?thesis
    using locale_scoping [OF h1 h2 h3 h4, of "example_fetch (example_cse ''0'' [])"] h1 h2 h3 h4
    unfolding l by auto
qed

section \<open>Outcomes of the search client\<close>

text \<open>
  Claim C8, as stated, fails: with an API key configured, a \<open>fetch\<close> that rejects (no
  upstream response at all) makes \<open>search\<close> fail with the rejection, which is neither
  of the two cases.
\<close>

theorem search_failure_cases_counterexample:
  "truthy (API_KEY example_env) \<and>
   example_fetch_rejecting (search_url ''key'' ''amp'' ''en'' (Num 1) (searchOptions_of ''en''))
     = Rejected (FetchError ''connect ECONNREFUSED'') \<and>
   search example_env example_fetch_rejecting ''amp'' ''en'' (Num 1) (searchOptions_of ''en'')
     = (Inl (FetchError ''connect ECONNREFUSED''),
        [search_url ''key'' ''amp'' ''en'' (Num 1) (searchOptions_of ''en'')])"
  by (simp add: search_def example_fetch_rejecting_def example_env_def API_KEY_def)

text \<open>
  Claim C8, amended. Without an API key \<open>search\<close> throws at once and fetches nothing;
  with a key it fetches exactly one URL. A rejection of \<open>fetch\<close> is passed on; a
  non-success status gives the error \<open>Invalid response for search query\<close>, whatever
  the status and the body text (a body that cannot be read passes its error on); a
  success status whose body is not JSON passes the parser's error on; a success status
  with a JSON value other than \<open>null\<close> returns that value unchanged. \<open>search\<close>
  fails in no other case than: no key, a rejection, a non-success status, a success
  status whose body yields no such value.
\<close>

theorem search_outcomes:
  fixes fetch :: "request_url \<Rightarrow> 'j fetch_outcome"
    and env :: environment and query loc :: string and page :: number and opts :: search_options
  defines "u \<equiv> search_url (or_empty (API_KEY env)) query loc page opts"
  shows "(\<not> truthy (API_KEY env) \<longrightarrow>
            search env fetch query loc page opts =
              (Inl (Error (''Custom search api key not initialized! '' @
                           ''Set GOOGLE_CUSTOM_SEARCH_API_KEY in Netlify environment variables.'')), [])) \<and>
         (truthy (API_KEY env) \<longrightarrow> snd (search env fetch query loc page opts) = [u]) \<and>
         (\<forall>e. truthy (API_KEY env) \<and> fetch u = Rejected e \<longrightarrow>
            fst (search env fetch query loc page opts) = Inl e) \<and>
         (\<forall>st t b. truthy (API_KEY env) \<and> fetch u = Resolved st (Inr t) b \<and> \<not> ok st \<longrightarrow>
            fst (search env fetch query loc page opts) = Inl (Error ''Invalid response for search query'')) \<and>
         (\<forall>st e b. truthy (API_KEY env) \<and> fetch u = Resolved st (Inl e) b \<and> \<not> ok st \<longrightarrow>
            fst (search env fetch query loc page opts) = Inl e) \<and>
         (\<forall>st t e. truthy (API_KEY env) \<and> fetch u = Resolved st t (NotJson e) \<and> ok st \<longrightarrow>
            fst (search env fetch query loc page opts) = Inl e) \<and>
         (\<forall>st t v. truthy (API_KEY env) \<and> fetch u = Resolved st t (JsonValue v) \<and> ok st \<longrightarrow>
            fst (search env fetch query loc page opts) = Inr v) \<and>
         (\<forall>e. fst (search env fetch query loc page opts) = Inl e \<longrightarrow>
            \<not> truthy (API_KEY env) \<or> (\<exists>e'. fetch u = Rejected e') \<or>
            (\<exists>st t b. fetch u = Resolved st t b \<and> (\<not> ok st \<or> (\<forall>v. b \<noteq> JsonValue v))))"
  unfolding u_def
  by (auto simp: search_def Let_def split: fetch_outcome.splits json_body.splits sum.splits)

theorem search_outcomes_witness:
  "\<not> truthy (API_KEY example_env_no_key) \<and>
   search example_env_no_key example_fetch_forbidden ''amp'' ''en'' (Num 1) (searchOptions_of ''en'')
     = (Inl (Error (''Custom search api key not initialized! '' @
                    ''Set GOOGLE_CUSTOM_SEARCH_API_KEY in Netlify environment variables.'')), []) \<and>
   truthy (API_KEY example_env) \<and>
   example_fetch_forbidden (search_url ''key'' ''amp'' ''en'' (Num 1) (searchOptions_of ''en''))
     = Resolved 403 (Inr ''quota exceeded'') (NotJson (FetchError ''invalid json'')) \<and> \<not> ok 403 \<and>
   fst (search example_env example_fetch_forbidden ''amp'' ''en'' (Num 1) (searchOptions_of ''en''))
     = Inl (Error ''Invalid response for search query'') \<and>
   example_fetch (example_cse ''0'' []) (search_url ''key'' ''amp'' ''en'' (Num 1) (searchOptions_of ''en''))
     = Resolved 200 (Inr []) (JsonValue (example_cse ''0'' [])) \<and> ok 200 \<and>
   fst (search example_env (example_fetch (example_cse ''0'' [])) ''amp'' ''en'' (Num 1) (searchOptions_of ''en''))
     = Inr (example_cse ''0'' [])"
proof -
  have k0: "\<not> truthy (API_KEY example_env_no_key)"
    by (simp add: API_KEY_def example_env_no_key_def)
  have k1: "truthy (API_KEY example_env)" and k: "or_empty (API_KEY example_env) = ''key''"
    by (simp_all add: API_KEY_def example_env_def)
  have f1: "example_fetch_forbidden (search_url ''key'' ''amp'' ''en'' (Num 1) (searchOptions_of ''en''))
     = Resolved 403 (Inr ''quota exceeded'') (NotJson (FetchError ''invalid json''))"
    by (simp add: example_fetch_forbidden_def)
  have f2: "example_fetch (example_cse ''0'' []) (search_url ''key'' ''amp'' ''en'' (Num 1) (searchOptions_of ''en''))
     = Resolved 200 (Inr []) (JsonValue (example_cse ''0'' []))"
    by (simp add: example_fetch_def)
  have o: "\<not> ok 403" "ok 200" by (simp_all add: ok_def)
  have f1': "example_fetch_forbidden
      (search_url (or_empty (API_KEY example_env)) ''amp'' ''en'' (Num 1) (searchOptions_of ''en''))
     = Resolved 403 (Inr ''quota exceeded'') (NotJson (FetchError ''invalid json''))"
    unfolding k by (rule f1)
  have f2': "example_fetch (example_cse ''0'' [])
      (search_url (or_empty (API_KEY example_env)) ''amp'' ''en'' (Num 1) (searchOptions_of ''en''))
     = Resolved 200 (Inr []) (JsonValue (example_cse ''0'' []))"
    unfolding k by (rule f2)
  note a = search_outcomes [of example_env_no_key example_fetch_forbidden "''amp''" "''en''" "Num 1"
      "searchOptions_of ''en''", THEN conjunct1, rule_format, OF k0]
  note b = search_outcomes [of example_env example_fetch_forbidden "''amp''" "''en''" "Num 1"
      "searchOptions_of ''en''", THEN conjunct2, THEN conjunct2, THEN conjunct2, THEN conjunct1,
      rule_format, OF conjI [OF k1 conjI [OF f1' o(1)]]]
  note c = search_outcomes [of example_env "example_fetch (example_cse ''0'' [])" "''amp''" "''en''" "Num 1"
      "searchOptions_of ''en''", THEN conjunct2, THEN conjunct2, THEN conjunct2, THEN conjunct2,
      THEN conjunct2, THEN conjunct2, THEN conjunct1, rule_format, OF conjI [OF k1 conjI [OF f2' o(2)]]]
  show ?thesis
    by (intro conjI k0 a k1 f1 o b f2 c)
qed


lemma example_run_first:
  "handler example_env (example_fetch (example_cse ''5'' example_batch)) (example_event ''amp'' ''1'' ''en'')
     = (Inr example_response_first, example_requests_first)"
  by code_simp

lemma handler_loop:
  assumes "handler env fetch ev = (Inr resp, reqs)" and "body resp = ResultJson e"
  obtains cse st where
    "search env fetch (query_of (queryStringParameters ev)) (locale_of (queryStringParameters ev))
        (page_of (queryStringParameters ev)) (searchOptions_of (locale_of (queryStringParameters ev)))
       = (Inr cse, reqs)"
    "loop_result (locale_of (queryStringParameters ev)) (page_of (queryStringParameters ev))
        (totalResults (result e)) cse st"
    "components (result e) = deref st (componentRefs st)"
    "pages (result e) = deref st (pageRefs st)"
proof -
  from handler_envelope [OF assms] obtain cse info st where
    s: "search env fetch (query_of (queryStringParameters ev)) (locale_of (queryStringParameters ev))
              (page_of (queryStringParameters ev)) (searchOptions_of (locale_of (queryStringParameters ev)))
             = (Inr cse, reqs)"
    and i: "searchInformation cse = Some info"
    and l: "loop_result (locale_of (queryStringParameters ev)) (page_of (queryStringParameters ev))
              (parseInt (to_display (si_totalResults info))) cse st"
    and e: "e = createResult (parseInt (to_display (si_totalResults info)))
                 (page_of (queryStringParameters ev))
                 (Math_ceil (num_div (parseInt (to_display (si_totalResults info))) PAGE_SIZE))
                 (deref st (componentRefs st)) (deref st (pageRefs st))
                 (query_of (queryStringParameters ev)) (locale_of (queryStringParameters ev))"
    by blast
  show thesis
    by (rule that [of cse st]) (use s l in \<open>simp_all add: e createResult_fields\<close>)
qed

lemma num_eq_1: "num_eq page (Num 1) \<longleftrightarrow> page = Num 1"
  by (cases page) auto

section \<open>Components and pages\<close>

text \<open>
  Claim C10. For every run of the handler with \<open>totalResults > 0\<close>, every raw item
  of the batch gives exactly one page object (the object at address \<open>i\<close> comes from
  item \<open>i\<close>), and every object is pushed exactly once, into \<open>components\<close> or into
  \<open>pages\<close>: the two arrays hold distinct objects, together all of them, and their
  lengths add up to the number of items.
\<close>

theorem pages_partition_items:
  assumes "handler env fetch ev = (Inr resp, reqs)" and "body resp = ResultJson e"
      and "num_gt (totalResults (result e)) (Num 0)"
  shows "\<exists>cse its st.
           search env fetch (query_of (queryStringParameters ev)) (locale_of (queryStringParameters ev))
              (page_of (queryStringParameters ev)) (searchOptions_of (locale_of (queryStringParameters ev)))
             = (Inr cse, reqs) \<and>
           items cse = Some its \<and>
           st = for_items (locale_of (queryStringParameters ev)) 0 its
                  (initial_state (num_eq (page_of (queryStringParameters ev)) (Num 1))) \<and>
           components (result e) = deref st (componentRefs st) \<and>
           pages (result e) = deref st (pageRefs st) \<and>
           length (heap st) = length its \<and>
           (\<forall>i<length its. url (heap st ! i) = or_empty (link (its ! i))) \<and>
           distinct (componentRefs st @ pageRefs st) \<and>
           set (componentRefs st) \<union> set (pageRefs st) = {0 ..< length its} \<and>
           length (components (result e)) + length (pages (result e)) = length its"
proof -
  let ?loc = "locale_of (queryStringParameters ev)" and ?page = "page_of (queryStringParameters ev)"
  from assms(1,2) obtain cse st where
    s: "search env fetch (query_of (queryStringParameters ev)) ?loc ?page (searchOptions_of ?loc) = (Inr cse, reqs)"
    and l: "loop_result ?loc ?page (totalResults (result e)) cse st"
    and c: "components (result e) = deref st (componentRefs st)"
    and p: "pages (result e) = deref st (pageRefs st)"
    by (rule handler_loop)
  from l assms(3) obtain its where its: "items cse = Some its"
    and st: "st = for_items ?loc 0 its (initial_state (num_eq ?page (Num 1)))"
    unfolding loop_result_def by auto
  have inv: "loop_inv (num_eq ?page (Num 1)) its (length its) st"
    unfolding st by (rule for_items_final)
  then have h: "length (heap st) = length its"
    and u: "\<forall>i<length its. url (heap st ! i) = or_empty (link (its ! i))"
    and d: "distinct (componentRefs st @ pageRefs st)"
    and cv: "set (componentRefs st) \<union> set (pageRefs st) = {0 ..< length its}"
    unfolding loop_inv_def by blast+
  have "length (componentRefs st @ pageRefs st) = card (set (componentRefs st @ pageRefs st))"
    using d by (rule distinct_card [symmetric])
  also have "\<dots> = length its" using cv by simp
  finally have n: "length (components (result e)) + length (pages (result e)) = length its"
    by (simp add: c p deref_def)
  show ?thesis
    using s its st c p h u d cv n by blast
qed

theorem pages_partition_items_witness:
  "handler example_env (example_fetch (example_cse ''5'' example_batch)) (example_event ''amp'' ''1'' ''en'')
     = (Inr example_response_first, example_requests_first) \<and>
   body example_response_first = ResultJson example_envelope_first \<and>
   num_gt (totalResults (result example_envelope_first)) (Num 0) \<and>
   length (components (result example_envelope_first)) + length (pages (result example_envelope_first)) = 5"
proof -
  let ?ev = "example_event ''amp'' ''1'' ''en''"
  let ?fetch = "example_fetch (example_cse ''5'' example_batch)"
  have b: "body example_response_first = ResultJson example_envelope_first"
    by (simp add: example_response_first_def)
  have g: "num_gt (totalResults (result example_envelope_first)) (Num 0)"
    by (simp add: example_envelope_first_def num_gt_def)
  have s: "search example_env ?fetch (query_of (queryStringParameters ?ev)) (locale_of (queryStringParameters ?ev))
              (page_of (queryStringParameters ?ev)) (searchOptions_of (locale_of (queryStringParameters ?ev)))
             = (Inr (example_cse ''5'' example_batch), example_requests_first)"
    by code_simp
  from pages_partition_items [OF example_run_first b g] obtain cse its
    where "search example_env ?fetch (query_of (queryStringParameters ?ev)) (locale_of (queryStringParameters ?ev))
              (page_of (queryStringParameters ?ev)) (searchOptions_of (locale_of (queryStringParameters ?ev)))
             = (Inr cse, example_requests_first)"
      and i: "items cse = Some its"
      and n: "length (components (result example_envelope_first)) +
              length (pages (result example_envelope_first)) = length its"
    by blast
  with s have "cse = example_cse ''5'' example_batch" by simp
  with i have "its = example_batch" by (simp add: example_cse_def)
  with n have "length (components (result example_envelope_first)) +
               length (pages (result example_envelope_first)) = 5"
    by (simp add: example_batch_def)
  with example_run_first b g show ?thesis by (intro conjI)
qed

text \<open>
  Claim C2. In every run of the handler \<open>components\<close> has at most 3 entries, and an
  item is classified as a component only when the requested page is 1, its index in
  the batch is at most 7, fewer than 3 components have been collected before it, and
  its URL has the form the specification describes: an optional scheme and host, an
  optional single path segment, then \<open>/documentation/components/amp-<name>\<close>.
\<close>

theorem component_classification:
  assumes "handler env fetch ev = (Inr resp, reqs)" and "body resp = ResultJson e"
  shows "length (components (result e)) \<le> 3 \<and>
         (\<exists>st. components (result e) = deref st (componentRefs st) \<and>
               pages (result e) = deref st (pageRefs st) \<and>
               (\<forall>a\<in>set (componentRefs st).
                  page_of (queryStringParameters ev) = Num 1 \<and>
                  a \<le> 7 \<and>
                  length (filter (\<lambda>b. b < a) (componentRefs st)) < 3 \<and>
                  (\<exists>cse its.
                     search env fetch (query_of (queryStringParameters ev)) (locale_of (queryStringParameters ev))
                        (page_of (queryStringParameters ev)) (searchOptions_of (locale_of (queryStringParameters ev)))
                       = (Inr cse, reqs) \<and>
                     items cse = Some its \<and> a < length its \<and>
                     url (heap st ! a) = or_empty (link (its ! a)) \<and>
                     (\<exists>name. spec_component_reference_doc_url (or_empty (link (its ! a))) name))))"
proof -
  let ?loc = "locale_of (queryStringParameters ev)" and ?page = "page_of (queryStringParameters ev)"
  from assms(1,2) obtain cse st where
    s: "search env fetch (query_of (queryStringParameters ev)) ?loc ?page (searchOptions_of ?loc) = (Inr cse, reqs)"
    and l: "loop_result ?loc ?page (totalResults (result e)) cse st"
    and c: "components (result e) = deref st (componentRefs st)"
    and p: "pages (result e) = deref st (pageRefs st)"
    by (rule handler_loop)
  show ?thesis
  proof (cases "num_gt (totalResults (result e)) (Num 0)")
    case False
    with l have "st = initial_state (num_eq ?page (Num 1))"
      unfolding loop_result_def by simp
    then have "componentRefs st = []" by (simp add: initial_state_def)
    then show ?thesis using c p by (auto simp: deref_def)
  next
    case True
    with l obtain its where its: "items cse = Some its"
      and st: "st = for_items ?loc 0 its (initial_state (num_eq ?page (Num 1)))"
      unfolding loop_result_def by auto
    have inv: "loop_inv (num_eq ?page (Num 1)) its (length its) st"
      unfolding st by (rule for_items_final)
    then have u: "\<forall>i<length its. url (heap st ! i) = or_empty (link (its ! i))"
      and cv: "set (componentRefs st) \<union> set (pageRefs st) = {0 ..< length its}"
      and le3: "length (componentRefs st) \<le> 3"
      and comps: "\<forall>a\<in>set (componentRefs st).
          num_eq ?page (Num 1) \<and> a \<le> 7 \<and> length (filter (\<lambda>b. b < a) (componentRefs st)) < 3 \<and>
          test COMPONENT_REFERENCE_DOC_PATTERN (or_empty (link (its ! a)))"
      unfolding loop_inv_def by blast+
    have "\<forall>a\<in>set (componentRefs st).
            ?page = Num 1 \<and> a \<le> 7 \<and> length (filter (\<lambda>b. b < a) (componentRefs st)) < 3 \<and>
            (\<exists>cse its.
               search env fetch (query_of (queryStringParameters ev)) ?loc ?page (searchOptions_of ?loc)
                 = (Inr cse, reqs) \<and>
               items cse = Some its \<and> a < length its \<and>
               url (heap st ! a) = or_empty (link (its ! a)) \<and>
               (\<exists>name. spec_component_reference_doc_url (or_empty (link (its ! a))) name))"
    proof
      fix a assume a: "a \<in> set (componentRefs st)"
      with cv have lt: "a < length its" by auto
      from comps a have "?page = Num 1" "a \<le> 7" "length (filter (\<lambda>b. b < a) (componentRefs st)) < 3"
        "\<exists>name. spec_component_reference_doc_url (or_empty (link (its ! a))) name"
        unfolding num_eq_1 test_component_pattern by blast+
      with s its lt u show "?page = Num 1 \<and> a \<le> 7 \<and> length (filter (\<lambda>b. b < a) (componentRefs st)) < 3 \<and>
            (\<exists>cse its.
               search env fetch (query_of (queryStringParameters ev)) ?loc ?page (searchOptions_of ?loc)
                 = (Inr cse, reqs) \<and>
               items cse = Some its \<and> a < length its \<and>
               url (heap st ! a) = or_empty (link (its ! a)) \<and>
               (\<exists>name. spec_component_reference_doc_url (or_empty (link (its ! a))) name))"
        by blast
    qed
    moreover have "length (components (result e)) \<le> 3"
      using le3 by (simp add: c deref_def)
    ultimately show ?thesis using c p by blast
  qed
qed


theorem component_classification_witness:
  "handler example_env (example_fetch (example_cse ''5'' example_batch)) (example_event ''amp'' ''1'' ''en'')
     = (Inr example_response_first, example_requests_first) \<and>
   body example_response_first = ResultJson example_envelope_first \<and>
   length (components (result example_envelope_first)) \<le> 3"
proof -
  have b: "body example_response_first = ResultJson example_envelope_first"
    by (simp add: example_response_first_def)
  from component_classification [OF example_run_first b, THEN conjunct1] example_run_first b
  show ?thesis by (intro conjI)
qed

end
